theory Spec2Isabelle
  imports Main "HOL-Library.Word" "HOL-Library.AList"
begin

unbundle bit_operations_syntax

section \<open>Frame codec (protocol/frame.go)\<close>

type_synonym byte = "8 word"
type_synonym bytes = "byte list"
type_synonym uint32 = "32 word"

definition FrameOpenStream :: byte where "FrameOpenStream = 0x01"
definition FrameData :: byte where "FrameData = 0x02"
definition FrameCloseStream :: byte where "FrameCloseStream = 0x03"
definition FramePing :: byte where "FramePing = 0x04"
definition FramePong :: byte where "FramePong = 0x05"

definition MaxPayloadSize :: nat where "MaxPayloadSize = 10 * 1024 * 1024"

definition frameHeaderSize :: nat where "frameHeaderSize = 9"

text \<open>
  Every error value the protocol package declares or produces. The constructors
  \<open>ReadingHeader\<close>, \<open>ReadingPayload\<close>, \<open>InvalidFrame\<close>, \<open>PayloadTooLarge\<close> and
  \<open>OpeningStream\<close> stand for the \<^verbatim>\<open>fmt.Errorf("...: %w", ...)\<close> wrappers of the source;
  \<open>EOF\<close> and \<open>ErrUnexpectedEOF\<close> are the two errors of \<^verbatim>\<open>io.ReadFull\<close>;
  \<open>CtxErr\<close> is \<^verbatim>\<open>ctx.Err()\<close>.
\<close>

datatype error =
    EOF
  | ErrUnexpectedEOF
  | ReadingHeader error
  | ReadingPayload error
  | InvalidFrame byte
  | PayloadTooLarge uint32
  | ErrStreamClosed
  | ErrMuxClosed
  | ErrStreamExists
  | ErrUnknownStream
  | ErrTooManyStreams
  | OpeningStream uint32 error
  | CtxErr

record Frame =
  Type :: byte
  StreamID :: uint32
  Payload :: bytes

text \<open>\<^verbatim>\<open>binary.BigEndian.PutUint32\<close> and \<^verbatim>\<open>binary.BigEndian.Uint32\<close>.\<close>

definition PutUint32 :: "uint32 \<Rightarrow> bytes" where
  "PutUint32 v = [ucast (drop_bit 24 v), ucast (drop_bit 16 v), ucast (drop_bit 8 v), ucast v]"

definition Uint32 :: "bytes \<Rightarrow> uint32" where
  "Uint32 b = ucast (b ! 3) OR push_bit 8 (ucast (b ! 2)) OR push_bit 16 (ucast (b ! 1))
                OR push_bit 24 (ucast (b ! 0))"

text \<open>
  \<^verbatim>\<open>EncodeFrame\<close>: one buffer of \<open>9 + len(payload)\<close> bytes; the length field is
  \<^verbatim>\<open>uint32(pLen)\<close>, the conversion that keeps the low 32 bits.
\<close>

definition EncodeFrame :: "Frame \<Rightarrow> bytes" where
  "EncodeFrame f =
     Type f # PutUint32 (StreamID f) @ PutUint32 (of_nat (length (Payload f))) @ Payload f"

text \<open>
  The reader is what \<^verbatim>\<open>bytes.NewReader\<close> gives (the reader loop and the tests decode
  from one): the bytes not yet consumed. \<^verbatim>\<open>io.ReadFull(r, buf)\<close> with \<open>len(buf) = n\<close>
  returns the next \<open>n\<close> bytes, or consumes what is left and fails with \<open>EOF\<close> (nothing was
  left) or \<open>ErrUnexpectedEOF\<close> (fewer than \<open>n\<close> were left).
\<close>

definition ReadFull :: "bytes \<Rightarrow> nat \<Rightarrow> (error + bytes) \<times> bytes" where
  "ReadFull r n =
     (if n \<le> length r then (Inr (take n r), drop n r)
      else (Inl (if r = [] then EOF else ErrUnexpectedEOF), []))"

text \<open>
  \<^verbatim>\<open>DecodeFrame\<close> returns the frame or the error, and the model also returns the two
  effects the function has: the reader after the call, and the size of the payload buffer
  made by \<^verbatim>\<open>make([]byte, payloadLen)\<close> (\<open>None\<close> when the function returned before that
  statement).
\<close>

record Decoded =
  result :: "error + Frame"
  reader :: bytes
  allocated :: "nat option"

definition DecodeFrame :: "bytes \<Rightarrow> Decoded" where
  "DecodeFrame r =
     (case ReadFull r frameHeaderSize of
        (Inl err, r1) \<Rightarrow> \<lparr>result = Inl (ReadingHeader err), reader = r1, allocated = None\<rparr>
      | (Inr hdr, r1) \<Rightarrow>
          (let fType = hdr ! 0 in
           if fType < FrameOpenStream \<or> fType > FramePong
           then \<lparr>result = Inl (InvalidFrame fType), reader = r1, allocated = None\<rparr>
           else
             (let streamID = Uint32 (take 4 (drop 1 hdr));
                  payloadLen = Uint32 (take 4 (drop 5 hdr)) in
              if unat payloadLen > MaxPayloadSize
              then \<lparr>result = Inl (PayloadTooLarge payloadLen), reader = r1, allocated = None\<rparr>
              else if payloadLen > 0
              then (case ReadFull r1 (unat payloadLen) of
                      (Inl err, r2) \<Rightarrow>
                        \<lparr>result = Inl (ReadingPayload err), reader = r2,
                         allocated = Some (unat payloadLen)\<rparr>
                    | (Inr payload, r2) \<Rightarrow>
                        \<lparr>result = Inr \<lparr>Type = fType, StreamID = streamID, Payload = payload\<rparr>,
                         reader = r2, allocated = Some (unat payloadLen)\<rparr>)
              else \<lparr>result = Inr \<lparr>Type = fType, StreamID = streamID,
                                  Payload = replicate (unat payloadLen) 0\<rparr>,
                    reader = r1, allocated = Some (unat payloadLen)\<rparr>)))"

section \<open>Channels and select\<close>

text \<open>
  A call of the package either returns, or waits on a channel that no statement of the
  same call can make ready (\<open>Blocks\<close>: only another goroutine can wake it), or panics
  (a send on a closed channel that nothing recovers).
\<close>

datatype 'a outcome = is_Returns: Returns (the_result: 'a) | Blocks | Panics

text \<open>
  Go's \<^verbatim>\<open>select\<close> without \<^verbatim>\<open>default\<close>: each case is a pair of "the communication can
  proceed" and what the case then does. When no case is ready the statement blocks; when
  several are, the runtime picks one of them at random, and \<open>pick\<close> is that choice.
\<close>

definition select :: "(bool \<times> 'a outcome) list \<Rightarrow> nat \<Rightarrow> 'a outcome" where
  "select cases pick =
     (case map snd (filter fst cases) of
        [] \<Rightarrow> Blocks
      | r # rs \<Rightarrow> (r # rs) ! (pick mod length (r # rs)))"

section \<open>Stream (protocol/stream.go)\<close>

text \<open>
  \<open>dataCh\<close> is the buffered channel of capacity 256 (nothing ever closes it), \<open>closed\<close>
  says whether the channel \<^verbatim>\<open>closed\<close> has been closed, \<open>closeOnce\<close> whether the
  \<^verbatim>\<open>sync.Once\<close> has fired. The two callbacks are the closures the mux builds:
  \<open>writeFn = sid\<close> is \<^verbatim>\<open>m.makeWriteFn(id)\<close>, \<open>closeFn = Some sid\<close> is
  \<^verbatim>\<open>m.makeCloseFn(id)\<close> and \<open>closeFn = None\<close> is \<^verbatim>\<open>nil\<close>.
\<close>

record Stream =
  ID :: uint32
  dataCh :: "bytes list"
  readBuf :: bytes
  writeFn :: uint32
  closeFn :: "uint32 option"
  closeOnce :: bool
  closed :: bool

definition dataCh_cap :: nat where "dataCh_cap = 256"

definition newStream :: "uint32 \<Rightarrow> uint32 \<Rightarrow> uint32 option \<Rightarrow> Stream" where
  "newStream sid wfn cfn =
     \<lparr>ID = sid, dataCh = [], readBuf = [], writeFn = wfn, closeFn = cfn,
      closeOnce = False, closed = False\<rparr>"

text \<open>
  \<^verbatim>\<open>Read(p)\<close> with \<open>len(p) = n\<close>: the bytes copied into \<open>p\<close> and the error.
  \<^verbatim>\<open>copy(p, data)\<close> copies \<open>min n (len data)\<close> bytes, that is \<open>take n data\<close>.
  When both the data channel and the closed channel are ready, either case of the outer
  select takes the next chunk (the closed case drains the channel itself), so the result
  does not depend on the runtime's choice.
\<close>

definition Read :: "Stream \<Rightarrow> nat \<Rightarrow> ((bytes \<times> error option) \<times> Stream) outcome" where
  "Read s n =
     (if length (readBuf s) > 0
      then Returns ((take n (readBuf s), None), s\<lparr>readBuf := drop n (readBuf s)\<rparr>)
      else (case dataCh s of
              data # rest \<Rightarrow>
                Returns ((take n data, None),
                         s\<lparr>dataCh := rest,
                           readBuf := (if min n (length data) < length data
                                       then drop (min n (length data)) data
                                       else readBuf s)\<rparr>)
            | [] \<Rightarrow> if closed s then Returns (([], Some EOF), s) else Blocks))"

definition isClosed :: "Stream \<Rightarrow> bool" where
  "isClosed s = closed s"

text \<open>\<^verbatim>\<open>pushData\<close>: a select between the send on \<open>dataCh\<close> and the closed channel.\<close>

definition pushData :: "Stream \<Rightarrow> bytes \<Rightarrow> nat \<Rightarrow> Stream outcome" where
  "pushData s data pick =
     select [(length (dataCh s) < dataCh_cap, Returns (s\<lparr>dataCh := dataCh s @ [data]\<rparr>)),
             (closed s, Returns s)] pick"

definition closeRead :: "Stream \<Rightarrow> Stream" where
  "closeRead s = (if closeOnce s then s else s\<lparr>closeOnce := True, closed := True\<rparr>)"

section \<open>Mux (protocol/mux.go)\<close>

text \<open>
  A \<^verbatim>\<open>*Stream\<close> is an index into \<open>objs\<close>, the Stream objects allocated so far, so that
  two streams with the same ID are two objects. \<open>streams\<close> is the registry
  \<^verbatim>\<open>map[uint32]*Stream\<close>; \<open>mux_closed\<close> is the channel \<^verbatim>\<open>m.closed\<close> (the name \<open>closed\<close>
  is the Stream's field); \<open>acceptCh\<close> (capacity 32) and \<open>writeCh\<close> (capacity 256) are the
  buffered channels with their closed flags; \<open>wire\<close> is the list of messages the writer
  loop has handed to \<^verbatim>\<open>conn.Write\<close>; \<open>onPong\<close> says whether a callback is registered and
  \<open>pongCalls\<close> counts its invocations. \<open>once\<close> says that \<^verbatim>\<open>m.once.Do\<close> has been entered,
  and \<open>once_stuck\<close> that the goroutine inside it waits on a channel that nothing will
  close, so that it never leaves and every later \<^verbatim>\<open>m.once.Do\<close> waits for it.
\<close>

type_synonym addr = nat

record Mux =
  objs :: "Stream list"
  streams :: "(uint32 \<times> addr) list"
  nextID :: uint32
  isServer :: bool
  maxStreams :: int
  acceptCh :: "addr list"
  acceptCh_closed :: bool
  onPong :: bool
  pongCalls :: nat
  mux_closed :: bool
  once :: bool
  once_stuck :: bool
  writeCh :: "bytes list"
  writeCh_closed :: bool
  wire :: "bytes list"
  conn_closed :: bool

definition acceptCh_cap :: nat where "acceptCh_cap = 32"
definition writeCh_cap :: nat where "writeCh_cap = 256"

definition NewMux :: "bool \<Rightarrow> Mux" where
  "NewMux server =
     \<lparr>objs = [], streams = [], nextID = (if server then 2 else 1), isServer = server,
      maxStreams = 0, acceptCh = [], acceptCh_closed = False, onPong = False, pongCalls = 0,
      mux_closed = False, once = False, once_stuck = False, writeCh = [], writeCh_closed = False, wire = [],
      conn_closed = False\<rparr>"

definition SetMaxStreams :: "Mux \<Rightarrow> int \<Rightarrow> Mux" where
  "SetMaxStreams m n = m\<lparr>maxStreams := n\<rparr>"

definition removeStream :: "Mux \<Rightarrow> uint32 \<Rightarrow> Mux" where
  "removeStream m sid = m\<lparr>streams := AList.delete sid (streams m)\<rparr>"

text \<open>
  \<^verbatim>\<open>writeWS\<close>: the send panics when \<open>writeCh\<close> is closed, and the deferred
  \<^verbatim>\<open>recover\<close> turns the panic into \<open>ErrMuxClosed\<close>.
\<close>

definition writeWS :: "Mux \<Rightarrow> bytes \<Rightarrow> nat \<Rightarrow> (error option \<times> Mux) outcome" where
  "writeWS m data pick =
     select [(writeCh_closed m \<or> length (writeCh m) < writeCh_cap,
              if writeCh_closed m then Returns (Some ErrMuxClosed, m)
              else Returns (None, m\<lparr>writeCh := writeCh m @ [data]\<rparr>)),
             (mux_closed m, Returns (Some ErrMuxClosed, m))] pick"

definition makeWriteFn :: "uint32 \<Rightarrow> Mux \<Rightarrow> bytes \<Rightarrow> nat \<Rightarrow> (error option \<times> Mux) outcome" where
  "makeWriteFn sid m payload pick =
     (if mux_closed m then Returns (Some ErrMuxClosed, m)
      else writeWS m (EncodeFrame \<lparr>Type = FrameData, StreamID = sid, Payload = payload\<rparr>) pick)"

definition makeCloseFn :: "uint32 \<Rightarrow> Mux \<Rightarrow> nat \<Rightarrow> Mux outcome" where
  "makeCloseFn sid m pick =
     (case writeWS m (EncodeFrame \<lparr>Type = FrameCloseStream, StreamID = sid, Payload = []\<rparr>) pick of
        Returns (_, m') \<Rightarrow> Returns (removeStream m' sid)
      | Blocks \<Rightarrow> Blocks
      | Panics \<Rightarrow> Panics)"

text \<open>
  \<^verbatim>\<open>Stream.Write\<close> and \<^verbatim>\<open>Stream.Close\<close> act on the stream object at address \<open>a\<close> and,
  through the callbacks, on the mux. \<^verbatim>\<open>Write\<close> returns the count and the error. The two
  checks of \<open>closed\<close> around the lock read the same state here, and the copy of \<open>p\<close> is
  the value \<open>p\<close> itself.
\<close>

definition Write :: "Mux \<Rightarrow> addr \<Rightarrow> bytes \<Rightarrow> nat \<Rightarrow> ((nat \<times> error option) \<times> Mux) outcome" where
  "Write m a p pick =
     (let s = objs m ! a in
      if closed s then Returns ((0, Some ErrStreamClosed), m)
      else (case makeWriteFn (writeFn s) m p pick of
              Returns (Some err, m') \<Rightarrow> Returns ((0, Some err), m')
            | Returns (None, m') \<Rightarrow> Returns ((length p, None), m')
            | Blocks \<Rightarrow> Blocks
            | Panics \<Rightarrow> Panics))"

definition Close :: "Mux \<Rightarrow> addr \<Rightarrow> nat \<Rightarrow> (error option \<times> Mux) outcome" where
  "Close m a pick =
     (let s = objs m ! a in
      if closeOnce s then Returns (None, m)
      else
        (let m1 = m\<lparr>objs := (objs m)[a := s\<lparr>closeOnce := True, closed := True\<rparr>]\<rparr> in
         case closeFn s of
           None \<Rightarrow> Returns (None, m1)
         | Some sid \<Rightarrow>
             (case makeCloseFn sid m1 pick of
                Returns m2 \<Rightarrow> Returns (None, m2)
              | Blocks \<Rightarrow> Blocks
              | Panics \<Rightarrow> Panics)))"

text \<open>\<^verbatim>\<open>len(m.streams)\<close> counts the keys of the registry.\<close>

definition len_streams :: "Mux \<Rightarrow> nat" where
  "len_streams m = length (remdups (map fst (streams m)))"

text \<open>\<^verbatim>\<open>OpenStream\<close> returns the new stream's address or the error.\<close>

definition OpenStream :: "Mux \<Rightarrow> nat \<Rightarrow> ((error + addr) \<times> Mux) outcome" where
  "OpenStream m pick =
     (if mux_closed m then Returns (Inl ErrMuxClosed, m)
      else if maxStreams m > 0 \<and> int (len_streams m) \<ge> maxStreams m
      then Returns (Inl ErrTooManyStreams, m)
      else
        (let sid = nextID m;
             m1 = m\<lparr>nextID := nextID m + 2\<rparr>;
             a = length (objs m1);
             m2 = m1\<lparr>objs := objs m1 @ [newStream sid sid (Some sid)]\<rparr>;
             m3 = m2\<lparr>streams := AList.update sid a (streams m2)\<rparr>
         in case writeWS m3
                   (EncodeFrame \<lparr>Type = FrameOpenStream, StreamID = sid, Payload = []\<rparr>) pick of
              Returns (Some err, m4) \<Rightarrow> Returns (Inl (OpeningStream sid err), removeStream m4 sid)
            | Returns (None, m4) \<Rightarrow> Returns (Inr a, m4)
            | Blocks \<Rightarrow> Blocks
            | Panics \<Rightarrow> Panics))"

text \<open>
  \<^verbatim>\<open>AcceptStream\<close>; \<open>ctx_done\<close> says whether the caller's context is cancelled. A receive
  on \<open>acceptCh\<close> is ready when a stream is queued or the channel is closed, and a closed
  channel still hands out what is queued.
\<close>

definition AcceptStream :: "Mux \<Rightarrow> bool \<Rightarrow> nat \<Rightarrow> ((error + addr) \<times> Mux) outcome" where
  "AcceptStream m ctx_done pick =
     select [(acceptCh m \<noteq> [] \<or> acceptCh_closed m,
              case acceptCh m of
                a # rest \<Rightarrow> Returns (Inr a, m\<lparr>acceptCh := rest\<rparr>)
              | [] \<Rightarrow> Returns (Inl ErrMuxClosed, m)),
             (ctx_done, Returns (Inl CtxErr, m)),
             (mux_closed m, Returns (Inl ErrMuxClosed, m))] pick"

definition SendPing :: "Mux \<Rightarrow> nat \<Rightarrow> (error option \<times> Mux) outcome" where
  "SendPing m pick =
     (if mux_closed m then Returns (Some ErrMuxClosed, m)
      else writeWS m (EncodeFrame \<lparr>Type = FramePing, StreamID = 0, Payload = []\<rparr>) pick)"

definition OnPong :: "Mux \<Rightarrow> bool \<Rightarrow> Mux" where
  "OnPong m fn = m\<lparr>onPong := fn\<rparr>"

text \<open>
  The function that \<^verbatim>\<open>shutdown\<close> gives to \<^verbatim>\<open>m.once.Do\<close>, in two parts. \<open>shutdown_begin\<close>
  is what it does up to \<^verbatim>\<open>close(m.writeCh)\<close>: close \<open>m.closed\<close>, close the read side of
  every registered stream, empty the registry, close \<open>acceptCh\<close> and \<open>writeCh\<close>. It then
  waits on \<open>writeDone\<close>, which the writer loop closes when it returns. Called by another
  goroutine than the writer loop (\<open>shutdown_fn\<close>), the wait ends once the writer loop has
  handed the messages still queued to the connection (each \<^verbatim>\<open>conn.Write\<close> taken to
  succeed) and left its loop; the connection is closed last.
\<close>

definition closeRead_all :: "(uint32 \<times> addr) list \<Rightarrow> Stream list \<Rightarrow> Stream list" where
  "closeRead_all reg os = fold (\<lambda>(sid, a) os'. os'[a := closeRead (os' ! a)]) reg os"

definition shutdown_begin :: "Mux \<Rightarrow> Mux" where
  "shutdown_begin m =
     m\<lparr>once := True, mux_closed := True,
       objs := closeRead_all (streams m) (objs m), streams := [],
       acceptCh_closed := True, writeCh_closed := True\<rparr>"

definition shutdown_fn :: "Mux \<Rightarrow> Mux" where
  "shutdown_fn m =
     (let m1 = shutdown_begin m
      in m1\<lparr>wire := wire m1 @ writeCh m1, writeCh := [], conn_closed := True\<rparr>)"

text \<open>
  \<^verbatim>\<open>shutdown\<close> called by another goroutine than the writer loop: \<^verbatim>\<open>m.once.Do\<close> waits
  while an earlier call is inside it, returns at once after an earlier call, and runs the
  function otherwise.
\<close>

definition shutdown :: "Mux \<Rightarrow> Mux outcome" where
  "shutdown m =
     (if once_stuck m then Blocks
      else if once m then Returns m
      else Returns (shutdown_fn m))"

text \<open>
  \<^verbatim>\<open>Mux.Close\<close>: after \<^verbatim>\<open>shutdown\<close> it waits for the reader loop, which leaves its
  loop because the connection has been closed.
\<close>

definition Mux_Close :: "Mux \<Rightarrow> (error option \<times> Mux) outcome" where
  "Mux_Close m =
     (case shutdown m of
        Returns m' \<Rightarrow> Returns (None, m')
      | Blocks \<Rightarrow> Blocks
      | Panics \<Rightarrow> Panics)"

text \<open>
  What an iteration of a loop leads to: the loop goes on, the goroutine leaves the loop,
  or the goroutine waits forever.
\<close>

datatype loop = Continue | Exit | Stuck

text \<open>
  One iteration of \<^verbatim>\<open>writeLoop\<close>; \<open>ok\<close> says whether \<^verbatim>\<open>conn.Write\<close> succeeds. The loop ends
  when \<open>writeCh\<close> is closed and empty. When the write fails the writer loop itself calls
  \<^verbatim>\<open>shutdown\<close>; if it is the first to enter \<^verbatim>\<open>m.once.Do\<close>, the function waits on
  \<open>writeDone\<close>, which only the return of the writer loop would close: the goroutine is
  stuck there, after \<open>shutdown_begin\<close>, and the result is the state the other goroutines
  see from then on.
\<close>

definition writeLoop_step :: "Mux \<Rightarrow> bool \<Rightarrow> (loop \<times> Mux) outcome" where
  "writeLoop_step m ok =
     (case writeCh m of
        [] \<Rightarrow> if writeCh_closed m then Returns (Exit, m) else Blocks
      | data # rest \<Rightarrow>
          (let m1 = m\<lparr>writeCh := rest\<rparr> in
           if ok then Returns (Continue, m1\<lparr>wire := wire m1 @ [data]\<rparr>)
           else if once_stuck m1 then Blocks
           else if once m1 then Returns (Exit, m1)
           else Returns (Stuck, (shutdown_begin m1)\<lparr>once_stuck := True\<rparr>)))"

text \<open>The handlers of the reader loop.\<close>

definition handleOpenStream :: "Mux \<Rightarrow> uint32 \<Rightarrow> nat \<Rightarrow> Mux outcome" where
  "handleOpenStream m sid pick =
     (let a = length (objs m);
          m1 = m\<lparr>objs := objs m @ [newStream sid sid (Some sid)]\<rparr>;
          m2 = m1\<lparr>streams := AList.update sid a (streams m1)\<rparr>
      in select [(acceptCh_closed m2 \<or> length (acceptCh m2) < acceptCh_cap,
                  if acceptCh_closed m2 then Panics
                  else Returns (m2\<lparr>acceptCh := acceptCh m2 @ [a]\<rparr>)),
                 (mux_closed m2, Returns m2)] pick)"

definition handleData :: "Mux \<Rightarrow> uint32 \<Rightarrow> bytes \<Rightarrow> nat \<Rightarrow> Mux outcome" where
  "handleData m sid payload pick =
     (case map_of (streams m) sid of
        None \<Rightarrow> Returns m
      | Some a \<Rightarrow>
          (case pushData (objs m ! a) payload pick of
             Returns s' \<Rightarrow> Returns (m\<lparr>objs := (objs m)[a := s']\<rparr>)
           | Blocks \<Rightarrow> Blocks
           | Panics \<Rightarrow> Panics))"

definition handleCloseStream :: "Mux \<Rightarrow> uint32 \<Rightarrow> Mux" where
  "handleCloseStream m sid =
     (case map_of (streams m) sid of
        None \<Rightarrow> m
      | Some a \<Rightarrow> removeStream (m\<lparr>objs := (objs m)[a := closeRead (objs m ! a)]\<rparr>) sid)"

definition handlePing :: "Mux \<Rightarrow> nat \<Rightarrow> Mux outcome" where
  "handlePing m pick =
     (case writeWS m (EncodeFrame \<lparr>Type = FramePong, StreamID = 0, Payload = []\<rparr>) pick of
        Returns (_, m') \<Rightarrow> Returns m'
      | Blocks \<Rightarrow> Blocks
      | Panics \<Rightarrow> Panics)"

definition handlePong :: "Mux \<Rightarrow> Mux" where
  "handlePong m = (if onPong m then m\<lparr>pongCalls := pongCalls m + 1\<rparr> else m)"

text \<open>The \<^verbatim>\<open>switch f.Type\<close> of the reader loop.\<close>

definition dispatch :: "Mux \<Rightarrow> Frame \<Rightarrow> nat \<Rightarrow> Mux outcome" where
  "dispatch m f pick =
     (if Type f = FrameOpenStream then handleOpenStream m (StreamID f) pick
      else if Type f = FrameData then handleData m (StreamID f) (Payload f) pick
      else if Type f = FrameCloseStream then Returns (handleCloseStream m (StreamID f))
      else if Type f = FramePing then handlePing m pick
      else if Type f = FramePong then Returns (handlePong m)
      else Returns m)"

text \<open>
  One iteration of \<^verbatim>\<open>readLoop\<close> on what \<^verbatim>\<open>conn.Read\<close> returned: a message or an error.
  The result says whether the loop goes on.
\<close>

datatype conn_read = Msg bytes | ReadError

definition readLoop_step :: "Mux \<Rightarrow> conn_read \<Rightarrow> nat \<Rightarrow> (loop \<times> Mux) outcome" where
  "readLoop_step m rd pick =
     (case rd of
        ReadError \<Rightarrow>
          (case shutdown m of
             Returns m' \<Rightarrow> Returns (Exit, m')
           | Blocks \<Rightarrow> Blocks
           | Panics \<Rightarrow> Panics)
      | Msg data \<Rightarrow>
          if length data < frameHeaderSize then Returns (Continue, m)
          else (case result (DecodeFrame data) of
                  Inl err \<Rightarrow> Returns (Continue, m)
                | Inr f \<Rightarrow>
                    if mux_closed m then Returns (Exit, m)
                    else (case dispatch m f pick of
                            Returns m' \<Rightarrow> Returns (Continue, m')
                          | Blocks \<Rightarrow> Blocks
                          | Panics \<Rightarrow> Panics)))"

section \<open>Sequences of calls\<close>




text \<open>
  The calls that act on a mux: its exported methods, the methods of its streams (by the
  address of the stream object), one iteration of the reader loop on what the connection
  delivered, and one iteration of the writer loop. Each call is run to its end before the
  next one starts, and a sequence stops at a call that blocks. A method called on an
  address that holds no stream is a call through a nil pointer.
\<close>

datatype call =
    CallOpenStream nat
  | CallAcceptStream bool nat
  | CallSendPing nat
  | CallSetMaxStreams int
  | CallOnPong bool
  | CallMuxClose
  | CallWrite addr bytes nat
  | CallRead addr nat
  | CallClose addr nat
  | ReaderGets conn_read nat
  | WriterRuns bool

datatype event =
    RetOpen "error + addr \<times> uint32"
  | RetAccept "error + addr"
  | RetErr "error option"
  | RetWrite nat "error option"
  | RetRead bytes "error option"
  | RetLoop loop
  | RetUnit

definition ret :: "('a \<Rightarrow> event) \<Rightarrow> ('a \<times> Mux) outcome \<Rightarrow> (event \<times> Mux) outcome" where
  "ret ev r = (case r of Returns (x, m') \<Rightarrow> Returns (ev x, m') | Blocks \<Rightarrow> Blocks | Panics \<Rightarrow> Panics)"

fun exec :: "Mux \<Rightarrow> call \<Rightarrow> (event \<times> Mux) outcome" where
  "exec m (CallOpenStream pick) =
     (case OpenStream m pick of
        Returns (Inl err, m') \<Rightarrow> Returns (RetOpen (Inl err), m')
      | Returns (Inr a, m') \<Rightarrow> Returns (RetOpen (Inr (a, ID (objs m' ! a))), m')
      | Blocks \<Rightarrow> Blocks
      | Panics \<Rightarrow> Panics)"
| "exec m (CallAcceptStream ctx_done pick) = ret RetAccept (AcceptStream m ctx_done pick)"
| "exec m (CallSendPing pick) = ret RetErr (SendPing m pick)"
| "exec m (CallSetMaxStreams n) = Returns (RetUnit, SetMaxStreams m n)"
| "exec m (CallOnPong fn) = Returns (RetUnit, OnPong m fn)"
| "exec m CallMuxClose = ret RetErr (Mux_Close m)"
| "exec m (CallWrite a p pick) =
     (if a < length (objs m) then ret (\<lambda>(n, err). RetWrite n err) (Write m a p pick) else Panics)"
| "exec m (CallRead a n) =
     (if a < length (objs m)
      then (case Read (objs m ! a) n of
              Returns ((bs, err), s') \<Rightarrow> Returns (RetRead bs err, m\<lparr>objs := (objs m)[a := s']\<rparr>)
            | Blocks \<Rightarrow> Blocks
            | Panics \<Rightarrow> Panics)
      else Panics)"
| "exec m (CallClose a pick) =
     (if a < length (objs m) then ret RetErr (Close m a pick) else Panics)"
| "exec m (ReaderGets rd pick) = ret RetLoop (readLoop_step m rd pick)"
| "exec m (WriterRuns ok) = ret RetLoop (writeLoop_step m ok)"

fun run :: "Mux \<Rightarrow> call list \<Rightarrow> (event list \<times> Mux) outcome" where
  "run m [] = Returns ([], m)"
| "run m (c # cs) =
     (case exec m c of
        Returns (ev, m') \<Rightarrow>
          (case run m' cs of
             Returns (evs, m'') \<Rightarrow> Returns (ev # evs, m'')
           | Blocks \<Rightarrow> Blocks
           | Panics \<Rightarrow> Panics)
      | Blocks \<Rightarrow> Blocks
      | Panics \<Rightarrow> Panics)"

text \<open>The IDs of the streams that the \<^verbatim>\<open>OpenStream\<close> calls of a sequence returned.\<close>

fun opened_ids :: "event list \<Rightarrow> uint32 list" where
  "opened_ids [] = []"
| "opened_ids (RetOpen (Inr (a, sid)) # evs) = sid # opened_ids evs"
| "opened_ids (ev # evs) = opened_ids evs"

text \<open>
  The state a fresh mux is in after a sequence of calls that all returned, and the results
  of those calls.
\<close>

definition completes :: "bool \<Rightarrow> call list \<Rightarrow> bool" where
  "completes server cs = is_Returns (run (NewMux server) cs)"

definition events_of :: "bool \<Rightarrow> call list \<Rightarrow> event list" where
  "events_of server cs = fst (the_result (run (NewMux server) cs))"

definition state_after :: "bool \<Rightarrow> call list \<Rightarrow> Mux" where
  "state_after server cs = snd (the_result (run (NewMux server) cs))"




text \<open>
  A remote peer sends \<^verbatim>\<open>OPEN_STREAM\<close> twice for stream 2 and the mux is then closed:
  the first stream object (address 0) is no longer in the registry when \<^verbatim>\<open>shutdown\<close>
  closes the registered streams.
\<close>

definition orphan_calls :: "call list" where
  "orphan_calls =
     [ReaderGets (Msg (EncodeFrame \<lparr>Type = FrameOpenStream, StreamID = 2, Payload = []\<rparr>)) 0,
      ReaderGets (Msg (EncodeFrame \<lparr>Type = FrameOpenStream, StreamID = 2, Payload = []\<rparr>)) 0,
      CallMuxClose]"

text \<open>
  A remote peer opens stream 2, the local side opens stream 1, and the mux is closed
  before anyone accepted stream 2.
\<close>

definition close_calls :: "call list" where
  "close_calls =
     [ReaderGets (Msg (EncodeFrame \<lparr>Type = FrameOpenStream, StreamID = 2, Payload = []\<rparr>)) 0,
      CallOpenStream 0,
      CallMuxClose]"

section \<open>Well-formed mux states\<close>

text \<open>
  What every state that the calls build from \<^verbatim>\<open>NewMux\<close> satisfies: each stream carries
  the callbacks the mux made for its own ID and its closed channel is closed exactly when
  its \<^verbatim>\<open>sync.Once\<close> has fired; the registry holds addresses of allocated streams; and
  \<open>m.once\<close>, \<open>m.closed\<close>, the closing of \<open>acceptCh\<close> and the closing of \<open>writeCh\<close> go
  together, since only \<^verbatim>\<open>shutdown\<close> touches them.
\<close>

definition wf_stream :: "Stream \<Rightarrow> bool" where
  "wf_stream s \<longleftrightarrow> writeFn s = ID s \<and> closeFn s = Some (ID s) \<and> (closed s \<longleftrightarrow> closeOnce s)"

definition wf :: "Mux \<Rightarrow> bool" where
  "wf m \<longleftrightarrow>
     (\<forall>s \<in> set (objs m). wf_stream s) \<and>
     (\<forall>e \<in> set (streams m). snd e < length (objs m)) \<and>
     (once m \<longleftrightarrow> mux_closed m) \<and>
     (once_stuck m \<longrightarrow> mux_closed m) \<and>
     (acceptCh_closed m \<longleftrightarrow> mux_closed m) \<and>
     (writeCh_closed m \<longleftrightarrow> mux_closed m)"

text \<open>
  What a call may change from \<open>m\<close> to \<open>m'\<close>: stream objects are only added, an object keeps
  its ID, a closed stream stays closed, a closed mux stays closed.
\<close>

definition evolves :: "Mux \<Rightarrow> Mux \<Rightarrow> bool" where
  "evolves m m' \<longleftrightarrow>
     length (objs m) \<le> length (objs m') \<and>
     (\<forall>a < length (objs m). ID (objs m' ! a) = ID (objs m ! a) \<and>
        (closed (objs m ! a) \<longrightarrow> closed (objs m' ! a))) \<and>
     (mux_closed m \<longrightarrow> mux_closed m')"

section \<open>The frame codec: round trip and errors\<close>

lemma Uint32_PutUint32: "Uint32 (PutUint32 v) = v"
  unfolding Uint32_def PutUint32_def
proof (rule bit_word_eqI)
  fix n assume "n < LENGTH(32)"
  then consider "n < 8" | "8 \<le> n \<and> n < 16" | "16 \<le> n \<and> n < 24" | "24 \<le> n \<and> n < 32"
    by fastforce
  then show "bit (ucast ([ucast (drop_bit 24 v), ucast (drop_bit 16 v), ucast (drop_bit 8 v),
                          ucast v :: byte] ! 3) OR
           push_bit 8 (ucast ([ucast (drop_bit 24 v), ucast (drop_bit 16 v),
                               ucast (drop_bit 8 v), ucast v :: byte] ! 2)) OR
           push_bit 16 (ucast ([ucast (drop_bit 24 v), ucast (drop_bit 16 v),
                                ucast (drop_bit 8 v), ucast v :: byte] ! 1)) OR
           push_bit 24 (ucast ([ucast (drop_bit 24 v), ucast (drop_bit 16 v),
                                ucast (drop_bit 8 v), ucast v :: byte] ! 0)) :: uint32) n
          = bit v n"
    by cases (auto simp: bit_simps)
qed

lemma length_PutUint32: "length (PutUint32 v) = 4"
  by (simp add: PutUint32_def)

lemma unat_payload_len: "n \<le> MaxPayloadSize \<Longrightarrow> unat (of_nat n :: uint32) = n"
  by (simp add: MaxPayloadSize_def unat_of_nat)

lemma hdr_len_field: "take 4 (drop 5 (take 9 r)) = take 4 (drop 5 r)"
  by (simp add: drop_take)

lemma hdr_sid_field: "take 4 (drop (Suc 0) (take 9 r)) = take 4 (drop (Suc 0) r)"
  by (simp add: drop_take)

lemma DecodeFrame_short:
  "length r < 9 \<Longrightarrow>
   DecodeFrame r = \<lparr>result = Inl (ReadingHeader (if r = [] then EOF else ErrUnexpectedEOF)),
                    reader = [], allocated = None\<rparr>"
  by (simp add: DecodeFrame_def ReadFull_def frameHeaderSize_def)

lemma DecodeFrame_long:
  assumes "9 \<le> length r"
  shows "DecodeFrame r =
    (if r ! 0 < 0x01 \<or> 0x05 < r ! 0
     then \<lparr>result = Inl (InvalidFrame (r ! 0)), reader = drop 9 r, allocated = None\<rparr>
     else if MaxPayloadSize < unat (Uint32 (take 4 (drop 5 r)))
     then \<lparr>result = Inl (PayloadTooLarge (Uint32 (take 4 (drop 5 r)))), reader = drop 9 r,
           allocated = None\<rparr>
     else if unat (Uint32 (take 4 (drop 5 r))) \<le> length r - 9
     then \<lparr>result = Inr \<lparr>Type = r ! 0, StreamID = Uint32 (take 4 (drop 1 r)),
                          Payload = take (unat (Uint32 (take 4 (drop 5 r)))) (drop 9 r)\<rparr>,
           reader = drop (unat (Uint32 (take 4 (drop 5 r)))) (drop 9 r),
           allocated = Some (unat (Uint32 (take 4 (drop 5 r))))\<rparr>
     else \<lparr>result = Inl (ReadingPayload (if drop 9 r = [] then EOF else ErrUnexpectedEOF)),
           reader = [], allocated = Some (unat (Uint32 (take 4 (drop 5 r))))\<rparr>)"
proof -
  let ?n = "Uint32 (take 4 (drop 5 r))"
  have hdr: "ReadFull r frameHeaderSize = (Inr (take 9 r), drop 9 r)"
    using assms by (simp add: ReadFull_def frameHeaderSize_def)
  have pos: "(0 < ?n) = (0 < unat ?n)"
    by (simp add: unat_gt_0 word_neq_0_conv)
  have zero: "\<not> 0 < ?n \<Longrightarrow> unat ?n = 0"
    using pos by simp
  show ?thesis
    unfolding DecodeFrame_def hdr
    by (simp add: Let_def hdr_len_field hdr_sid_field FrameOpenStream_def FramePong_def
          ReadFull_def zero del: take_eq_Nil)
qed

lemma DecodeFrame_EncodeFrame:
  assumes "Type f \<in> {0x01, 0x02, 0x03, 0x04, 0x05}"
    and "length (Payload f) \<le> MaxPayloadSize"
  shows "DecodeFrame (EncodeFrame f) =
           \<lparr>result = Inr f, reader = [], allocated = Some (length (Payload f))\<rparr>"
proof -
  let ?n = "length (Payload f)"
  have hdr: "ReadFull (EncodeFrame f) frameHeaderSize =
               (Inr (Type f # PutUint32 (StreamID f) @ PutUint32 (of_nat ?n)), Payload f)"
    by (simp add: ReadFull_def EncodeFrame_def frameHeaderSize_def length_PutUint32)
  have ty: "\<not> (Type f < FrameOpenStream \<or> Type f > FramePong)"
    using assms(1) by (auto simp: FrameOpenStream_def FramePong_def)
  have len: "unat (of_nat ?n :: uint32) = ?n"
    using assms(2) by (rule unat_payload_len)
  show ?thesis
  proof (cases "?n = 0")
    case True
    then show ?thesis using ty hdr
      by (simp add: DecodeFrame_def Let_def length_PutUint32 Uint32_PutUint32 MaxPayloadSize_def)
  next
    case False
    then have "(of_nat ?n :: uint32) > 0"
      using len by (metis unat_gt_0 word_neq_0_conv neq0_conv)
    then show ?thesis using ty hdr len assms(2)
      by (simp add: DecodeFrame_def Let_def length_PutUint32 Uint32_PutUint32 ReadFull_def)
  qed
qed


text \<open>
  Claim C1. For every frame whose type is one of 0x01 .. 0x05 and whose payload has at most
  10 MiB, decoding the bytes that \<^verbatim>\<open>EncodeFrame\<close> produced returns, with no error, a frame
  with the same type, the same 32-bit stream ID and the same payload; the decoder consumes
  the whole encoding.
\<close>

theorem EncodeFrame_DecodeFrame_roundtrip:
  assumes "Type f \<in> {0x01, 0x02, 0x03, 0x04, 0x05}"
    and "length (Payload f) \<le> 10 * 1024 * 1024"
  shows "result (DecodeFrame (EncodeFrame f)) = Inr f \<and> reader (DecodeFrame (EncodeFrame f)) = []"
proof -
  have "length (Payload f) \<le> MaxPayloadSize"
    using assms(2) by (simp add: MaxPayloadSize_def)
  then show ?thesis
    using DecodeFrame_EncodeFrame [OF assms(1)] by simp
qed

theorem EncodeFrame_DecodeFrame_roundtrip_witness:
  "Type \<lparr>Type = 0x02, StreamID = 42, Payload = [104, 105]\<rparr> \<in> {0x01, 0x02, 0x03, 0x04, 0x05 :: byte} \<and>
   length (Payload \<lparr>Type = 0x02, StreamID = 42, Payload = [104, 105]\<rparr>) \<le> 10 * 1024 * 1024 \<and>
   result (DecodeFrame (EncodeFrame \<lparr>Type = 0x02, StreamID = 42, Payload = [104, 105]\<rparr>)) =
     Inr \<lparr>Type = 0x02, StreamID = 42, Payload = [104, 105]\<rparr> \<and>
   reader (DecodeFrame (EncodeFrame \<lparr>Type = 0x02, StreamID = 42, Payload = [104, 105]\<rparr>)) = []"
  using EncodeFrame_DecodeFrame_roundtrip [of "\<lparr>Type = 0x02, StreamID = 42, Payload = [104, 105]\<rparr>"]
  by simp

text \<open>
  Claim C2. \<^verbatim>\<open>DecodeFrame\<close> returns an error exactly when the input has fewer than 9 bytes
  (short read on the header), or its type byte is outside 0x01 .. 0x05, or the declared
  payload length exceeds 10 MiB, or fewer payload bytes follow the header than declared
  (short read on the payload). For an invalid type and for an oversized length the reader
  has lost exactly the 9 header bytes and no payload buffer has been made; whenever a
  buffer is made, its size is the declared length and at most 10 MiB.
\<close>

theorem DecodeFrame_error_cases:
  "let fType = r ! 0; payloadLen = Uint32 (take 4 (drop 5 r)); d = DecodeFrame r in
     (isl (result d) \<longleftrightarrow>
        length r < 9 \<or> fType < 0x01 \<or> 0x05 < fType \<or> MaxPayloadSize < unat payloadLen
          \<or> length r - 9 < unat payloadLen) \<and>
     (9 \<le> length r \<and> (fType < 0x01 \<or> 0x05 < fType) \<longrightarrow>
        result d = Inl (InvalidFrame fType) \<and> reader d = drop 9 r \<and> allocated d = None) \<and>
     (9 \<le> length r \<and> \<not> (fType < 0x01 \<or> 0x05 < fType) \<and> MaxPayloadSize < unat payloadLen \<longrightarrow>
        result d = Inl (PayloadTooLarge payloadLen) \<and> reader d = drop 9 r \<and> allocated d = None) \<and>
     (\<forall>n. allocated d = Some n \<longrightarrow> n = unat payloadLen \<and> n \<le> MaxPayloadSize)"
proof (cases "9 \<le> length r")
  case False
  then have "length r < 9" by simp
  then show ?thesis
    by (simp add: DecodeFrame_short Let_def)
next
  case True
  show ?thesis
    unfolding Let_def DecodeFrame_long [OF True] using True
    by (simp add: not_less not_le)
qed

theorem DecodeFrame_error_cases_witness:
  "result (DecodeFrame [0xFF, 0, 0, 0, 1, 0, 0, 0, 3, 7]) = Inl (InvalidFrame 0xFF) \<and>
   reader (DecodeFrame [0xFF, 0, 0, 0, 1, 0, 0, 0, 3, 7]) = [7] \<and>
   allocated (DecodeFrame [0xFF, 0, 0, 0, 1, 0, 0, 0, 3, 7]) = None"
  using DecodeFrame_error_cases [of "[0xFF, 0, 0, 0, 1, 0, 0, 0, 3, 7]"]
  by (simp add: Let_def)

section \<open>Streams: the order of the bytes read\<close>

lemma select_result:
  "select cs pick = Blocks \<and> (\<forall>c \<in> set cs. \<not> fst c) \<or> (True, select cs pick) \<in> set cs"
proof (cases "map snd (filter fst cs)")
  case Nil
  then have "\<forall>c \<in> set cs. \<not> fst c"
    by (auto simp: filter_empty_conv)
  then show ?thesis using Nil by (simp add: select_def)
next
  case (Cons r rs)
  let ?rs = "map snd (filter fst cs)"
  have "select cs pick = ?rs ! (pick mod length ?rs)"
    using Cons by (simp add: select_def)
  moreover have "pick mod length ?rs < length ?rs" using Cons by simp
  ultimately have "select cs pick \<in> set ?rs" using nth_mem by metis
  then show ?thesis by auto
qed

lemma select2E:
  assumes "select [(b1, r1), (b2, r2)] pick = r"
  obtains "b1" "r = r1" | "b2" "r = r2" | "\<not> b1" "\<not> b2" "r = Blocks"
  using select_result [of "[(b1, r1), (b2, r2)]" pick] assms by auto

lemma select3E:
  assumes "select [(b1, r1), (b2, r2), (b3, r3)] pick = r"
  obtains "b1" "r = r1" | "b2" "r = r2" | "b3" "r = r3" | "\<not> b1" "\<not> b2" "\<not> b3" "r = Blocks"
  using select_result [of "[(b1, r1), (b2, r2), (b3, r3)]" pick] assms by auto

lemma select_first_only:
  "\<not> b2 \<Longrightarrow> select [(b1, r1), (b2, r2)] pick = (if b1 then r1 else Blocks)"
  by (simp add: select_def)

lemma select_same:
  "b1 \<Longrightarrow> b2 \<Longrightarrow> select [(b1, r), (b2, r)] pick = r"
  using select_result [of "[(b1, r), (b2, r)]" pick] by auto







section \<open>The mux on well-formed states\<close>

subsection \<open>writeWS\<close>

lemma writeWS_live:
  "\<not> mux_closed m \<Longrightarrow> \<not> writeCh_closed m \<Longrightarrow>
   writeWS m d pick =
     (if length (writeCh m) < writeCh_cap then Returns (None, m\<lparr>writeCh := writeCh m @ [d]\<rparr>)
      else Blocks)"
  by (simp add: writeWS_def select_first_only)

lemma writeWS_dead:
  "mux_closed m \<Longrightarrow> writeCh_closed m \<Longrightarrow> writeWS m d pick = Returns (Some ErrMuxClosed, m)"
  by (simp add: writeWS_def select_same)

lemma writeWS_wf:
  "wf m \<Longrightarrow>
   writeWS m d pick =
     (if mux_closed m then Returns (Some ErrMuxClosed, m)
      else if length (writeCh m) < writeCh_cap then Returns (None, m\<lparr>writeCh := writeCh m @ [d]\<rparr>)
      else Blocks)"
  by (cases "mux_closed m") (simp_all add: wf_def writeWS_live writeWS_dead)

subsection \<open>wf and evolves\<close>

lemma evolves_refl [simp]: "evolves m m"
  by (simp add: evolves_def)

lemma evolves_trans: "evolves m1 m2 \<Longrightarrow> evolves m2 m3 \<Longrightarrow> evolves m1 m3"
  unfolding evolves_def by (metis (no_types, lifting) le_trans less_le_trans)

lemma wf_NewMux: "wf (NewMux server)"
  by (simp add: wf_def NewMux_def)

lemma wf_writeCh [simp]: "wf (m\<lparr>writeCh := x\<rparr>) = wf m"
  by (simp add: wf_def)

lemma evolves_writeCh [simp]: "evolves m1 (m\<lparr>writeCh := x\<rparr>) = evolves m1 m"
  by (simp add: evolves_def)

lemma wf_maxStreams [simp]: "wf (m\<lparr>maxStreams := x\<rparr>) = wf m"
  by (simp add: wf_def)

lemma wf_onPong [simp]: "wf (m\<lparr>onPong := x\<rparr>) = wf m"
  by (simp add: wf_def)

lemma wf_pongCalls [simp]: "wf (m\<lparr>pongCalls := x\<rparr>) = wf m"
  by (simp add: wf_def)

lemma wf_wire [simp]: "wf (m\<lparr>wire := x\<rparr>) = wf m"
  by (simp add: wf_def)

lemma evolves_maxStreams [simp]: "evolves m1 (m\<lparr>maxStreams := x\<rparr>) = evolves m1 m"
  by (simp add: evolves_def)

lemma evolves_onPong [simp]: "evolves m1 (m\<lparr>onPong := x\<rparr>) = evolves m1 m"
  by (simp add: evolves_def)

lemma evolves_pongCalls [simp]: "evolves m1 (m\<lparr>pongCalls := x\<rparr>) = evolves m1 m"
  by (simp add: evolves_def)

lemma evolves_wire [simp]: "evolves m1 (m\<lparr>wire := x\<rparr>) = evolves m1 m"
  by (simp add: evolves_def)

lemma wf_removeStream [simp]: "wf m \<Longrightarrow> wf (removeStream m sid)"
  by (auto simp: wf_def removeStream_def AList.delete_eq)

lemma evolves_removeStream [simp]: "evolves m1 (removeStream m sid) = evolves m1 m"
  by (simp add: evolves_def removeStream_def)

lemma wf_stream_newStream [simp]: "wf_stream (newStream sid sid (Some sid))"
  by (simp add: wf_stream_def newStream_def)

lemma wf_stream_closeRead: "wf_stream s \<Longrightarrow> wf_stream (closeRead s)"
  by (simp add: wf_stream_def closeRead_def)

lemma set_AList_update: "set (AList.update k v al) \<subseteq> insert (k, v) (set al)"
  by (induction al) auto

lemma wf_register:
  "wf m \<Longrightarrow>
   wf (m\<lparr>objs := objs m @ [newStream sid sid (Some sid)],
         streams := AList.update sid (length (objs m)) (streams m)\<rparr>)"
  unfolding wf_def
  by (auto simp: less_Suc_eq dest!: set_AList_update [THEN subsetD])

lemma evolves_register: "evolves m (m\<lparr>objs := objs m @ [s], streams := reg\<rparr>)"
  by (simp add: evolves_def nth_append)

lemma wf_objs_update:
  "wf m \<Longrightarrow> wf_stream s \<Longrightarrow> wf (m\<lparr>objs := (objs m)[a := s]\<rparr>)"
  unfolding wf_def by (auto dest!: set_update_subset_insert [THEN subsetD])

lemma evolves_objs_update:
  "ID s = ID (objs m ! a) \<Longrightarrow> (closed (objs m ! a) \<longrightarrow> closed s) \<Longrightarrow>
   evolves m (m\<lparr>objs := (objs m)[a := s]\<rparr>)"
proof -
  assume h: "ID s = ID (objs m ! a)" "closed (objs m ! a) \<longrightarrow> closed s"
  have "ID ((objs m)[a := s] ! b) = ID (objs m ! b) \<and>
        (closed (objs m ! b) \<longrightarrow> closed ((objs m)[a := s] ! b))" if "b < length (objs m)" for b
    using that h by (cases "a = b") simp_all
  then show ?thesis by (simp add: evolves_def)
qed

lemma wf_nth: "wf m \<Longrightarrow> a < length (objs m) \<Longrightarrow> wf_stream (objs m ! a)"
  by (simp add: wf_def)

subsection \<open>The calls on well-formed states\<close>

lemma makeWriteFn_wf:
  "wf m \<Longrightarrow>
   makeWriteFn sid m p pick =
     (if mux_closed m then Returns (Some ErrMuxClosed, m)
      else if length (writeCh m) < writeCh_cap
      then Returns (None, m\<lparr>writeCh := writeCh m @
                     [EncodeFrame \<lparr>Type = FrameData, StreamID = sid, Payload = p\<rparr>]\<rparr>)
      else Blocks)"
  by (simp add: makeWriteFn_def writeWS_wf)

lemma Write_wf:
  assumes "wf m" "a < length (objs m)"
  shows "Write m a p pick =
     (if closed (objs m ! a) then Returns ((0, Some ErrStreamClosed), m)
      else if mux_closed m then Returns ((0, Some ErrMuxClosed), m)
      else if length (writeCh m) < writeCh_cap
      then Returns ((length p, None), m\<lparr>writeCh := writeCh m @
                     [EncodeFrame \<lparr>Type = FrameData, StreamID = ID (objs m ! a), Payload = p\<rparr>]\<rparr>)
      else Blocks)"
proof -
  have "writeFn (objs m ! a) = ID (objs m ! a)"
    using wf_nth [OF assms] by (simp add: wf_stream_def)
  then show ?thesis
    by (simp add: Write_def Let_def makeWriteFn_wf [OF assms(1)])
qed

lemma makeCloseFn_wf:
  "wf m \<Longrightarrow>
   makeCloseFn sid m pick =
     (if mux_closed m then Returns (removeStream m sid)
      else if length (writeCh m) < writeCh_cap
      then Returns (removeStream (m\<lparr>writeCh := writeCh m @
                     [EncodeFrame \<lparr>Type = FrameCloseStream, StreamID = sid, Payload = []\<rparr>]\<rparr>) sid)
      else Blocks)"
  by (simp add: makeCloseFn_def writeWS_wf)

lemma wf_mark_closed:
  assumes "wf m" "a < length (objs m)"
  shows "wf (m\<lparr>objs := (objs m)[a := (objs m ! a)\<lparr>closeOnce := True, closed := True\<rparr>]\<rparr>)"
proof (rule wf_objs_update [OF assms(1)])
  show "wf_stream ((objs m ! a)\<lparr>closeOnce := True, closed := True\<rparr>)"
    using wf_nth [OF assms] by (simp add: wf_stream_def)
qed

lemma Close_wf:
  assumes "wf m" "a < length (objs m)"
  shows "Close m a pick =
     (if closeOnce (objs m ! a) then Returns (None, m)
      else if mux_closed m
      then Returns (None, removeStream
             (m\<lparr>objs := (objs m)[a := (objs m ! a)\<lparr>closeOnce := True, closed := True\<rparr>]\<rparr>)
             (ID (objs m ! a)))
      else if length (writeCh m) < writeCh_cap
      then Returns (None, removeStream
             (m\<lparr>objs := (objs m)[a := (objs m ! a)\<lparr>closeOnce := True, closed := True\<rparr>],
                writeCh := writeCh m @ [EncodeFrame \<lparr>Type = FrameCloseStream,
                                          StreamID = ID (objs m ! a), Payload = []\<rparr>]\<rparr>)
             (ID (objs m ! a)))
      else Blocks)"
proof -
  have cf: "closeFn (objs m ! a) = Some (ID (objs m ! a))"
    using wf_nth [OF assms] by (simp add: wf_stream_def)
  show ?thesis
    by (simp add: Close_def Let_def cf makeCloseFn_wf [OF wf_mark_closed [OF assms]])
qed

lemma OpenStream_wf:
  assumes "wf m"
  shows "OpenStream m pick =
     (if mux_closed m then Returns (Inl ErrMuxClosed, m)
      else if maxStreams m > 0 \<and> int (len_streams m) \<ge> maxStreams m
      then Returns (Inl ErrTooManyStreams, m)
      else if length (writeCh m) < writeCh_cap
      then Returns (Inr (length (objs m)),
             m\<lparr>nextID := nextID m + 2,
               objs := objs m @ [newStream (nextID m) (nextID m) (Some (nextID m))],
               streams := AList.update (nextID m) (length (objs m)) (streams m),
               writeCh := writeCh m @ [EncodeFrame \<lparr>Type = FrameOpenStream,
                                          StreamID = nextID m, Payload = []\<rparr>]\<rparr>)
      else Blocks)"
proof -
  let ?m3 = "m\<lparr>nextID := nextID m + 2,
               objs := objs m @ [newStream (nextID m) (nextID m) (Some (nextID m))],
               streams := AList.update (nextID m) (length (objs m)) (streams m)\<rparr>"
  have "\<not> mux_closed m \<Longrightarrow> \<not> mux_closed ?m3 \<and> \<not> writeCh_closed ?m3"
    using assms by (simp add: wf_def)
  then show ?thesis
    by (simp add: OpenStream_def Let_def writeWS_live)
qed


lemma OpenStream_wf_evolves:
  assumes "wf m" "OpenStream m pick = Returns (r, m')"
  shows "wf m' \<and> evolves m m'"
proof -
  have "wf (m\<lparr>nextID := nextID m + 2,
               objs := objs m @ [newStream (nextID m) (nextID m) (Some (nextID m))],
               streams := AList.update (nextID m) (length (objs m)) (streams m),
               writeCh := w\<rparr>)" for w
    using wf_register [OF assms(1), of "nextID m"] by (simp add: wf_def)
  moreover have "evolves m (m\<lparr>nextID := nextID m + 2,
               objs := objs m @ [newStream (nextID m) (nextID m) (Some (nextID m))],
               streams := AList.update (nextID m) (length (objs m)) (streams m),
               writeCh := w\<rparr>)" for w
    by (simp add: evolves_def nth_append)
  ultimately show ?thesis
    using assms by (auto simp: OpenStream_wf split: if_splits)
qed

lemma Write_wf_evolves:
  assumes "wf m" "a < length (objs m)" "Write m a p pick = Returns (r, m')"
  shows "wf m' \<and> evolves m m'"
  using assms by (auto simp: Write_wf split: if_splits)

lemma Close_wf_evolves:
  assumes "wf m" "a < length (objs m)" "Close m a pick = Returns (r, m')"
  shows "wf m' \<and> evolves m m'"
proof -
  let ?m1 = "m\<lparr>objs := (objs m)[a := (objs m ! a)\<lparr>closeOnce := True, closed := True\<rparr>]\<rparr>"
  have w: "wf ?m1" by (rule wf_mark_closed [OF assms(1,2)])
  have e: "evolves m ?m1" by (rule evolves_objs_update) simp_all
  have w2: "wf (?m1\<lparr>writeCh := x\<rparr>)" for x using w by simp
  have e2: "evolves m (?m1\<lparr>writeCh := x\<rparr>)" for x using e by simp
  show ?thesis
  proof (cases "closeOnce (objs m ! a)")
    case True
    then show ?thesis using assms by (simp add: Close_wf)
  next
    case False
    then have "m' = removeStream ?m1 (ID (objs m ! a)) \<or>
               (\<exists>x. m' = removeStream (?m1\<lparr>writeCh := x\<rparr>) (ID (objs m ! a)))"
      using assms(3) unfolding Close_wf [OF assms(1,2)] by (auto split: if_splits)
    then show ?thesis using w e w2 e2 by auto
  qed
qed

lemma AcceptStream_state:
  assumes "AcceptStream m ctx_done pick = Returns (r, m')"
  shows "m' = m \<or> (\<exists>rest. m' = m\<lparr>acceptCh := rest\<rparr>)"
  using assms unfolding AcceptStream_def
  by (elim select3E) (auto split: list.splits)

lemma wf_acceptCh [simp]: "wf (m\<lparr>acceptCh := x\<rparr>) = wf m"
  by (simp add: wf_def)

lemma evolves_acceptCh [simp]: "evolves m1 (m\<lparr>acceptCh := x\<rparr>) = evolves m1 m"
  by (simp add: evolves_def)

lemma AcceptStream_wf_evolves:
  assumes "wf m" "AcceptStream m ctx_done pick = Returns (r, m')"
  shows "wf m' \<and> evolves m m'"
  using AcceptStream_state [OF assms(2)] assms(1) by auto

lemma SendPing_wf_evolves:
  assumes "wf m" "SendPing m pick = Returns (r, m')"
  shows "wf m' \<and> evolves m m'"
  using assms by (auto simp: SendPing_def writeWS_wf split: if_splits)

subsection \<open>shutdown\<close>

lemma closeRead_idem [simp]: "closeRead (closeRead s) = closeRead s"
  by (simp add: closeRead_def)

lemma closeRead_all_Cons:
  "closeRead_all ((k, b) # reg) os = closeRead_all reg (os[b := closeRead (os ! b)])"
  by (simp add: closeRead_all_def)

lemma closeRead_all_length [simp]: "length (closeRead_all reg os) = length os"
proof (induction reg arbitrary: os)
  case Nil
  then show ?case by (simp add: closeRead_all_def)
next
  case (Cons e reg)
  then show ?case by (cases e) (simp add: closeRead_all_Cons)
qed

lemma closeRead_all_nth:
  "a < length os \<Longrightarrow>
   closeRead_all reg os ! a = (if a \<in> snd ` set reg then closeRead (os ! a) else os ! a)"
proof (induction reg arbitrary: os)
  case Nil
  then show ?case by (simp add: closeRead_all_def)
next
  case (Cons e reg)
  obtain k b where e: "e = (k, b)" by (cases e)
  let ?os = "os[b := closeRead (os ! b)]"
  have len: "a < length ?os" using Cons.prems by simp
  have nth: "?os ! a = (if a = b then closeRead (os ! a) else os ! a)"
    using Cons.prems by (simp add: nth_list_update)
  show ?case
    unfolding e closeRead_all_Cons Cons.IH [OF len] nth by auto
qed

lemma wf_shutdown_begin: "wf m \<Longrightarrow> wf (shutdown_begin m)"
proof -
  assume w: "wf m"
  have "wf_stream s" if "s \<in> set (closeRead_all (streams m) (objs m))" for s
  proof -
    from that obtain a where a: "a < length (objs m)" and s: "s = closeRead_all (streams m) (objs m) ! a"
      by (auto simp: in_set_conv_nth)
    have "wf_stream (objs m ! a)" using w a by (rule wf_nth)
    then show ?thesis unfolding s closeRead_all_nth [OF a]
      by (simp add: wf_stream_closeRead)
  qed
  then show ?thesis using w by (simp add: shutdown_begin_def wf_def)
qed

lemma wf_once_stuck: "wf m \<Longrightarrow> mux_closed m \<Longrightarrow> wf (m\<lparr>once_stuck := b\<rparr>)"
  by (simp add: wf_def)

lemma evolves_once_stuck [simp]: "evolves m1 (m\<lparr>once_stuck := x\<rparr>) = evolves m1 m"
  by (simp add: evolves_def)

lemma evolves_conn_closed [simp]: "evolves m1 (m\<lparr>conn_closed := x\<rparr>) = evolves m1 m"
  by (simp add: evolves_def)

lemma wf_conn_closed [simp]: "wf (m\<lparr>conn_closed := x\<rparr>) = wf m"
  by (simp add: wf_def)

lemma wf_shutdown_fn: "wf m \<Longrightarrow> wf (shutdown_fn m)"
  using wf_shutdown_begin [of m] by (simp add: shutdown_fn_def Let_def)

lemma evolves_shutdown_begin: "evolves m (shutdown_begin m)"
  by (simp add: shutdown_begin_def evolves_def closeRead_all_nth closeRead_def)

lemma evolves_shutdown_fn: "evolves m (shutdown_fn m)"
  using evolves_shutdown_begin [of m] by (simp add: shutdown_fn_def Let_def)

lemma mux_closed_shutdown_begin [simp]: "mux_closed (shutdown_begin m)" "once (shutdown_begin m)"
  by (simp_all add: shutdown_begin_def)

lemma mux_closed_shutdown_fn [simp]: "mux_closed (shutdown_fn m)"
  by (simp add: shutdown_fn_def Let_def)

lemma shutdown_begin_closes_registered:
  assumes "wf m" "(sid, a) \<in> set (streams m)"
  shows "a < length (objs (shutdown_begin m)) \<and> closed (objs (shutdown_begin m) ! a)"
proof -
  have a: "a < length (objs m)" using assms by (auto simp: wf_def)
  have "a \<in> snd ` set (streams m)" using assms(2) by force
  moreover have "closed (closeRead s)" if "wf_stream s" for s
    using that by (simp add: closeRead_def wf_stream_def)
  ultimately show ?thesis
    using a wf_nth [OF assms(1) a]
    by (simp add: shutdown_begin_def closeRead_all_nth)
qed

lemma shutdown_fn_closes_registered:
  assumes "wf m" "(sid, a) \<in> set (streams m)"
  shows "a < length (objs (shutdown_fn m)) \<and> closed (objs (shutdown_fn m) ! a)"
  using shutdown_begin_closes_registered [OF assms] by (simp add: shutdown_fn_def Let_def)

lemma shutdown_wf_evolves:
  assumes "wf m" "shutdown m = Returns m'"
  shows "wf m' \<and> evolves m m'"
  using assms wf_shutdown_fn [of m] evolves_shutdown_fn [of m]
  by (auto simp: shutdown_def split: if_splits)

lemma shutdown_live:
  "wf m \<Longrightarrow> \<not> mux_closed m \<Longrightarrow> shutdown m = Returns (shutdown_fn m)"
  by (auto simp: shutdown_def wf_def)

lemma shutdown_mux_closed:
  "wf m \<Longrightarrow> shutdown m = Returns m' \<Longrightarrow> mux_closed m'"
  by (auto simp: shutdown_def wf_def split: if_splits)

subsection \<open>The reader and the writer\<close>

lemma handleOpenStream_live:
  "\<not> mux_closed m \<Longrightarrow> \<not> acceptCh_closed m \<Longrightarrow>
   handleOpenStream m sid pick =
     (if length (acceptCh m) < acceptCh_cap
      then Returns (m\<lparr>objs := objs m @ [newStream sid sid (Some sid)],
                     streams := AList.update sid (length (objs m)) (streams m),
                     acceptCh := acceptCh m @ [length (objs m)]\<rparr>)
      else Blocks)"
  by (simp add: handleOpenStream_def Let_def select_first_only)

lemma handleOpenStream_wf_evolves:
  assumes "wf m" "handleOpenStream m sid pick = Returns m'"
  shows "wf m' \<and> evolves m m'"
proof -
  let ?m2 = "m\<lparr>objs := objs m @ [newStream sid sid (Some sid)],
               streams := AList.update sid (length (objs m)) (streams m)\<rparr>"
  have w: "wf ?m2" by (rule wf_register [OF assms(1)])
  have e: "evolves m ?m2" by (rule evolves_register)
  have "m' = ?m2 \<or> m' = ?m2\<lparr>acceptCh := acceptCh ?m2 @ [length (objs m)]\<rparr>"
    using assms(2) unfolding handleOpenStream_def Let_def
    by (elim select2E) (auto split: if_splits)
  then show ?thesis using w e by auto
qed

lemma pushData_state:
  assumes "pushData s d pick = Returns s'"
  shows "s' = s \<or> s' = s\<lparr>dataCh := dataCh s @ [d]\<rparr>"
  using assms unfolding pushData_def by (elim select2E) auto

lemma pushData_not_Panics: "pushData s d pick \<noteq> Panics"
proof
  assume "pushData s d pick = Panics"
  then show False unfolding pushData_def by (elim select2E) auto
qed

lemma handleData_wf_evolves:
  assumes "wf m" "handleData m sid p pick = Returns m'"
  shows "wf m' \<and> evolves m m'"
proof (cases "map_of (streams m) sid")
  case None
  then show ?thesis using assms by (simp add: handleData_def)
next
  case (Some a)
  then have a: "a < length (objs m)"
    using assms(1) by (auto simp: wf_def dest!: map_of_SomeD)
  from assms(2) Some obtain s' where
    p: "pushData (objs m ! a) p pick = Returns s'" and m': "m' = m\<lparr>objs := (objs m)[a := s']\<rparr>"
    by (auto simp: handleData_def split: outcome.splits)
  have ws: "wf_stream (objs m ! a)" using assms(1) a by (rule wf_nth)
  have "wf_stream s'" "ID s' = ID (objs m ! a)" "closed (objs m ! a) \<longrightarrow> closed s'"
    using pushData_state [OF p] ws by (auto simp: wf_stream_def)
  then show ?thesis unfolding m'
    using wf_objs_update [OF assms(1)] evolves_objs_update by blast
qed

lemma handleCloseStream_wf_evolves:
  assumes "wf m"
  shows "wf (handleCloseStream m sid) \<and> evolves m (handleCloseStream m sid)"
proof (cases "map_of (streams m) sid")
  case None
  then show ?thesis using assms by (simp add: handleCloseStream_def)
next
  case (Some a)
  then have a: "a < length (objs m)"
    using assms(1) by (auto simp: wf_def dest!: map_of_SomeD)
  have ws: "wf_stream (closeRead (objs m ! a))"
    using wf_nth [OF assms a] by (rule wf_stream_closeRead)
  have "evolves m (m\<lparr>objs := (objs m)[a := closeRead (objs m ! a)]\<rparr>)"
    by (rule evolves_objs_update) (simp_all add: closeRead_def)
  then show ?thesis
    using Some wf_objs_update [OF assms ws, of a] by (simp add: handleCloseStream_def)
qed

lemma handlePing_wf_evolves:
  assumes "wf m" "handlePing m pick = Returns m'"
  shows "wf m' \<and> evolves m m'"
  using assms by (auto simp: handlePing_def writeWS_wf split: if_splits)

lemma handlePong_wf_evolves: "wf m \<Longrightarrow> wf (handlePong m) \<and> evolves m (handlePong m)"
  by (simp add: handlePong_def)

lemma dispatch_wf_evolves:
  assumes "wf m" "dispatch m f pick = Returns m'"
  shows "wf m' \<and> evolves m m'"
proof -
  have d: "handleOpenStream m (StreamID f) pick = Returns m' \<or>
           handleData m (StreamID f) (Payload f) pick = Returns m' \<or>
           handleCloseStream m (StreamID f) = m' \<or>
           handlePing m pick = Returns m' \<or>
           handlePong m = m' \<or> m = m'"
    using assms(2) unfolding dispatch_def
    by (cases "Type f = FrameOpenStream"; cases "Type f = FrameData";
        cases "Type f = FrameCloseStream"; cases "Type f = FramePing";
        cases "Type f = FramePong"; simp)
  show ?thesis
    using d handleOpenStream_wf_evolves [OF assms(1)] handleData_wf_evolves [OF assms(1)]
      handleCloseStream_wf_evolves [OF assms(1)] handlePing_wf_evolves [OF assms(1)]
      handlePong_wf_evolves [OF assms(1)] assms(1) evolves_refl
    by blast
qed

lemma readLoop_step_wf_evolves:
  assumes "wf m" "readLoop_step m rd pick = Returns (l, m')"
  shows "wf m' \<and> evolves m m'"
proof (cases rd)
  case ReadError
  then have "shutdown m = Returns m'"
    using assms(2) by (auto simp: readLoop_step_def split: outcome.splits)
  then show ?thesis by (rule shutdown_wf_evolves [OF assms(1)])
next
  case (Msg data)
  then have "m' = m \<or> (\<exists>f. dispatch m f pick = Returns m')"
    using assms(2) by (auto simp: readLoop_step_def split: if_splits sum.splits outcome.splits)
  then show ?thesis using assms(1) dispatch_wf_evolves [OF assms(1)] by auto
qed

lemma writeLoop_step_wf_evolves:
  assumes "wf m" "writeLoop_step m ok = Returns (l, m')"
  shows "wf m' \<and> evolves m m'"
proof (cases "writeCh m")
  case Nil
  then show ?thesis using assms by (auto simp: writeLoop_step_def split: if_splits)
next
  case (Cons d rest)
  let ?m1 = "m\<lparr>writeCh := rest\<rparr>"
  have w1: "wf ?m1" using assms(1) by simp
  have "m' = ?m1\<lparr>wire := wire ?m1 @ [d]\<rparr> \<or> m' = ?m1 \<or>
        m' = (shutdown_begin ?m1)\<lparr>once_stuck := True\<rparr>"
    using assms(2) Cons by (auto simp: writeLoop_step_def Let_def split: if_splits)
  moreover have "wf ((shutdown_begin ?m1)\<lparr>once_stuck := True\<rparr>)"
    using wf_shutdown_begin [OF w1] by (intro wf_once_stuck) simp_all
  moreover have "evolves m ((shutdown_begin ?m1)\<lparr>once_stuck := True\<rparr>)"
    using evolves_shutdown_begin [of ?m1] by (simp add: evolves_def)
  ultimately show ?thesis using assms(1) by auto
qed

lemma Read_stream:
  assumes "Read s n = Returns ((bs, err), s')"
  shows "ID s' = ID s \<and> closed s' = closed s \<and> closeOnce s' = closeOnce s \<and>
         writeFn s' = writeFn s \<and> closeFn s' = closeFn s"
  using assms by (auto simp: Read_def split: if_splits list.splits)

lemma Read_not_Panics: "Read s n \<noteq> Panics"
  by (simp add: Read_def split: list.splits)

subsection \<open>Every call keeps the state well-formed\<close>

lemma exec_wf_evolves:
  assumes "wf m" "exec m c = Returns (ev, m')"
  shows "wf m' \<and> evolves m m'"
proof (cases c)
  case (CallOpenStream pick)
  then show ?thesis using assms OpenStream_wf_evolves [OF assms(1)]
    by (auto split: outcome.splits sum.splits)
next
  case (CallAcceptStream ctx_done pick)
  then show ?thesis using assms AcceptStream_wf_evolves [OF assms(1)]
    by (auto simp: ret_def split: outcome.splits)
next
  case (CallSendPing pick)
  then show ?thesis using assms SendPing_wf_evolves [OF assms(1)]
    by (auto simp: ret_def split: outcome.splits)
next
  case (CallSetMaxStreams n)
  then show ?thesis using assms by (auto simp: SetMaxStreams_def)
next
  case (CallOnPong fn)
  then show ?thesis using assms by (auto simp: OnPong_def)
next
  case CallMuxClose
  then have "shutdown m = Returns m'"
    using assms(2) by (auto simp: ret_def Mux_Close_def split: outcome.splits)
  then show ?thesis by (rule shutdown_wf_evolves [OF assms(1)])
next
  case (CallWrite a p pick)
  then show ?thesis using assms Write_wf_evolves [OF assms(1)]
    by (auto simp: ret_def split: if_splits outcome.splits)
next
  case (CallRead a n)
  with assms obtain bs err s' where a: "a < length (objs m)" and
    rd: "Read (objs m ! a) n = Returns ((bs, err), s')" and m': "m' = m\<lparr>objs := (objs m)[a := s']\<rparr>"
    by (auto split: if_splits outcome.splits)
  have "wf_stream s'" using Read_stream [OF rd] wf_nth [OF assms(1) a] by (simp add: wf_stream_def)
  then show ?thesis unfolding m'
    using wf_objs_update [OF assms(1)] evolves_objs_update [of s' m a] Read_stream [OF rd] by simp
next
  case (CallClose a pick)
  then show ?thesis using assms Close_wf_evolves [OF assms(1)]
    by (auto simp: ret_def split: if_splits outcome.splits)
next
  case (ReaderGets rd pick)
  then show ?thesis using assms readLoop_step_wf_evolves [OF assms(1)]
    by (auto simp: ret_def split: outcome.splits)
next
  case (WriterRuns ok)
  then show ?thesis using assms writeLoop_step_wf_evolves [OF assms(1)]
    by (auto simp: ret_def split: outcome.splits)
qed

lemma run_wf_evolves:
  assumes "wf m" "run m cs = Returns (evs, m')"
  shows "wf m' \<and> evolves m m'"
  using assms
proof (induction cs arbitrary: m evs)
  case Nil
  then show ?case by simp
next
  case (Cons c cs)
  from Cons.prems(2) obtain ev m1 evs1 where
    e: "exec m c = Returns (ev, m1)" and r: "run m1 cs = Returns (evs1, m')"
    by (auto split: outcome.splits)
  have 1: "wf m1" "evolves m m1" using exec_wf_evolves [OF Cons.prems(1) e] by simp_all
  have 2: "wf m'" "evolves m1 m'" using Cons.IH [OF 1(1) r] by simp_all
  show ?case using 1 2 evolves_trans by blast
qed

lemma wf_state_after: "completes server cs \<Longrightarrow> wf (state_after server cs)"
proof -
  assume "completes server cs"
  then obtain evs m where r: "run (NewMux server) cs = Returns (evs, m)"
    unfolding completes_def by (cases "run (NewMux server) cs") auto
  then show ?thesis
    using run_wf_evolves [OF wf_NewMux r] by (simp add: state_after_def)
qed

section \<open>Frames through the reader loop\<close>

lemma length_EncodeFrame: "length (EncodeFrame f) = 9 + length (Payload f)"
  by (simp add: EncodeFrame_def length_PutUint32)

lemma readLoop_step_frame:
  assumes "Type f \<in> {0x01, 0x02, 0x03, 0x04, 0x05}"
    and "length (Payload f) \<le> MaxPayloadSize"
  shows "readLoop_step m (Msg (EncodeFrame f)) pick =
           (if mux_closed m then Returns (Exit, m)
            else (case dispatch m f pick of
                    Returns m' \<Rightarrow> Returns (Continue, m')
                  | Blocks \<Rightarrow> Blocks
                  | Panics \<Rightarrow> Panics))"
  by (simp add: readLoop_step_def DecodeFrame_EncodeFrame [OF assms] length_EncodeFrame
        frameHeaderSize_def)

lemma frame_types:
  "FrameOpenStream \<in> {0x01, 0x02, 0x03, 0x04, 0x05}" "FrameData \<in> {0x01, 0x02, 0x03, 0x04, 0x05}"
  "FrameCloseStream \<in> {0x01, 0x02, 0x03, 0x04, 0x05}" "FramePing \<in> {0x01, 0x02, 0x03, 0x04, 0x05}"
  "FramePong \<in> {0x01, 0x02, 0x03, 0x04, 0x05}"
  by (simp_all add: FrameOpenStream_def FrameData_def FrameCloseStream_def FramePing_def FramePong_def)

lemma frame_types_distinct:
  "FrameData \<noteq> FrameOpenStream" "FrameCloseStream \<noteq> FrameOpenStream"
  "FrameCloseStream \<noteq> FrameData" "FramePing \<noteq> FrameOpenStream" "FramePing \<noteq> FrameData"
  "FramePing \<noteq> FrameCloseStream" "FramePong \<noteq> FrameOpenStream" "FramePong \<noteq> FrameData"
  "FramePong \<noteq> FrameCloseStream" "FramePong \<noteq> FramePing"
  by (simp_all add: FrameOpenStream_def FrameData_def FrameCloseStream_def FramePing_def FramePong_def)

lemma dispatch_simps:
  "Type f = FrameOpenStream \<Longrightarrow> dispatch m f pick = handleOpenStream m (StreamID f) pick"
  "Type f = FrameData \<Longrightarrow> dispatch m f pick = handleData m (StreamID f) (Payload f) pick"
  "Type f = FrameCloseStream \<Longrightarrow> dispatch m f pick = Returns (handleCloseStream m (StreamID f))"
  "Type f = FramePing \<Longrightarrow> dispatch m f pick = handlePing m pick"
  "Type f = FramePong \<Longrightarrow> dispatch m f pick = Returns (handlePong m)"
  by (simp_all add: dispatch_def frame_types_distinct)

section \<open>Frames for unknown streams, and pings\<close>

text \<open>
  Claim C7. A \<^verbatim>\<open>DATA\<close> frame and a \<^verbatim>\<open>CLOSE_STREAM\<close> frame whose stream ID is not in the
  registry are dropped: the handlers, the dispatch of the reader loop and the whole
  iteration of the reader loop on the encoded frame return the mux state as it was (the
  registry, the accept queue, the next-ID counter and the outbound queue included, so no
  frame is sent in response), and the loop goes on without an error.
\<close>

theorem unknown_stream_frames_dropped:
  assumes "map_of (streams m) sid = None"
  shows "handleData m sid payload pick = Returns m \<and>
         handleCloseStream m sid = m \<and>
         (StreamID f = sid \<and> (Type f = FrameData \<or> Type f = FrameCloseStream) \<longrightarrow>
            dispatch m f pick = Returns m) \<and>
         (StreamID f = sid \<and> (Type f = FrameData \<or> Type f = FrameCloseStream) \<and>
          length (Payload f) \<le> MaxPayloadSize \<and> \<not> mux_closed m \<longrightarrow>
            readLoop_step m (Msg (EncodeFrame f)) pick = Returns (Continue, m))"
proof -
  have hd: "handleData m sid p k = Returns m" for p k
    using assms by (simp add: handleData_def)
  have hc: "handleCloseStream m sid = m"
    using assms by (simp add: handleCloseStream_def)
  have d: "dispatch m f pick = Returns m"
    if "StreamID f = sid" "Type f = FrameData \<or> Type f = FrameCloseStream"
    using that hd hc by (auto simp: dispatch_simps)
  have "readLoop_step m (Msg (EncodeFrame f)) pick = Returns (Continue, m)"
    if "StreamID f = sid" "Type f = FrameData \<or> Type f = FrameCloseStream"
       "length (Payload f) \<le> MaxPayloadSize" "\<not> mux_closed m"
  proof -
    have "Type f \<in> {0x01, 0x02, 0x03, 0x04, 0x05}"
      using that(2) by (elim disjE) (simp_all add: FrameData_def FrameCloseStream_def)
    then have "readLoop_step m (Msg (EncodeFrame f)) pick =
           (if mux_closed m then Returns (Exit, m)
            else (case dispatch m f pick of
                    Returns m' \<Rightarrow> Returns (Continue, m')
                  | Blocks \<Rightarrow> Blocks
                  | Panics \<Rightarrow> Panics))"
      using that(3) by (rule readLoop_step_frame)
    then show ?thesis
      unfolding d [OF that(1,2)] using that(4) by simp
  qed
  then show ?thesis using hd [of payload pick] hc d by (intro conjI impI) simp_all
qed

theorem unknown_stream_frames_dropped_witness:
  "map_of (streams (NewMux False)) 5 = None \<and>
   handleData (NewMux False) 5 [1] 0 = Returns (NewMux False) \<and>
   readLoop_step (NewMux False)
     (Msg (EncodeFrame \<lparr>Type = FrameData, StreamID = 5, Payload = [1]\<rparr>)) 0 =
     Returns (Continue, NewMux False)"
  using unknown_stream_frames_dropped
    [where m = "NewMux False" and sid = 5 and payload = "[1]" and pick = 0
       and f = "\<lparr>Type = FrameData, StreamID = 5, Payload = [1]\<rparr>"]
  by (simp add: NewMux_def MaxPayloadSize_def)

text \<open>
  Claim C8. When the reader loop processes a \<^verbatim>\<open>PING\<close> frame (the mux is not shut down),
  the iteration ends only after exactly one \<^verbatim>\<open>PONG\<close> frame, with stream ID 0 and no
  payload, has been appended to the outbound queue, and it changes nothing else (no user
  callback runs); while the queue is full the reader waits and processes no further frame.
\<close>

theorem ping_answered_with_pong:
  assumes "wf m" and "Type f = FramePing"
  shows "(\<not> mux_closed m \<longrightarrow>
            dispatch m f pick =
              (if length (writeCh m) < writeCh_cap
               then Returns (m\<lparr>writeCh := writeCh m @
                      [EncodeFrame \<lparr>Type = FramePong, StreamID = 0, Payload = []\<rparr>]\<rparr>)
               else Blocks)) \<and>
         (length (Payload f) \<le> MaxPayloadSize \<longrightarrow>
            readLoop_step m (Msg (EncodeFrame f)) pick =
              (if mux_closed m then Returns (Exit, m)
               else if length (writeCh m) < writeCh_cap
               then Returns (Continue, m\<lparr>writeCh := writeCh m @
                      [EncodeFrame \<lparr>Type = FramePong, StreamID = 0, Payload = []\<rparr>]\<rparr>)
               else Blocks))"
proof -
  have d: "dispatch m f pick =
              (if length (writeCh m) < writeCh_cap
               then Returns (m\<lparr>writeCh := writeCh m @
                      [EncodeFrame \<lparr>Type = FramePong, StreamID = 0, Payload = []\<rparr>]\<rparr>)
               else Blocks)" if "\<not> mux_closed m"
    using that assms by (simp add: dispatch_simps handlePing_def writeWS_wf)
  have t: "Type f \<in> {0x01, 0x02, 0x03, 0x04, 0x05}"
    using assms(2) frame_types by simp
  have r: "readLoop_step m (Msg (EncodeFrame f)) pick =
           (if mux_closed m then Returns (Exit, m)
            else (case dispatch m f pick of
                    Returns m' \<Rightarrow> Returns (Continue, m')
                  | Blocks \<Rightarrow> Blocks
                  | Panics \<Rightarrow> Panics))" if "length (Payload f) \<le> MaxPayloadSize"
    using t that by (rule readLoop_step_frame)
  show ?thesis
  proof (intro conjI impI)
    assume "\<not> mux_closed m"
    then show "dispatch m f pick =
              (if length (writeCh m) < writeCh_cap
               then Returns (m\<lparr>writeCh := writeCh m @
                      [EncodeFrame \<lparr>Type = FramePong, StreamID = 0, Payload = []\<rparr>]\<rparr>)
               else Blocks)" by (rule d)
  next
    assume l: "length (Payload f) \<le> MaxPayloadSize"
    show "readLoop_step m (Msg (EncodeFrame f)) pick =
              (if mux_closed m then Returns (Exit, m)
               else if length (writeCh m) < writeCh_cap
               then Returns (Continue, m\<lparr>writeCh := writeCh m @
                      [EncodeFrame \<lparr>Type = FramePong, StreamID = 0, Payload = []\<rparr>]\<rparr>)
               else Blocks)"
    proof (cases "mux_closed m")
      case True
      then show ?thesis unfolding r [OF l] by simp
    next
      case False
      then show ?thesis unfolding r [OF l] d [OF False] by simp
    qed
  qed
qed

theorem ping_answered_with_pong_witness:
  "wf (NewMux False) \<and>
   readLoop_step (NewMux False)
     (Msg (EncodeFrame \<lparr>Type = FramePing, StreamID = 0, Payload = []\<rparr>)) 0 =
     Returns (Continue, (NewMux False)\<lparr>writeCh := [ [5, 0, 0, 0, 0, 0, 0, 0, 0] ]\<rparr>)"
  using ping_answered_with_pong
    [where m = "NewMux False" and pick = 0
       and f = "\<lparr>Type = FramePing, StreamID = 0, Payload = []\<rparr>"]
  by (simp add: wf_def NewMux_def writeCh_cap_def EncodeFrame_def PutUint32_def FramePong_def)

section \<open>Stream IDs\<close>

subsection \<open>The next-ID counter\<close>

lemma handleOpenStream_nextID:
  "handleOpenStream m sid pick = Returns m' \<Longrightarrow> nextID m' = nextID m"
  unfolding handleOpenStream_def Let_def
  by (elim select2E) (auto split: if_splits)

lemma handleData_nextID:
  "handleData m sid p pick = Returns m' \<Longrightarrow> nextID m' = nextID m"
  by (auto simp: handleData_def split: option.splits outcome.splits)

lemma handleCloseStream_nextID: "nextID (handleCloseStream m sid) = nextID m"
  by (simp add: handleCloseStream_def removeStream_def split: option.splits)

lemma handlePing_nextID:
  "wf m \<Longrightarrow> handlePing m pick = Returns m' \<Longrightarrow> nextID m' = nextID m"
  by (auto simp: handlePing_def writeWS_wf split: if_splits)

lemma handlePong_nextID: "nextID (handlePong m) = nextID m"
  by (simp add: handlePong_def)

lemma dispatch_nextID:
  assumes "wf m" "dispatch m f pick = Returns m'"
  shows "nextID m' = nextID m"
proof -
  have d: "handleOpenStream m (StreamID f) pick = Returns m' \<or>
           handleData m (StreamID f) (Payload f) pick = Returns m' \<or>
           handleCloseStream m (StreamID f) = m' \<or>
           handlePing m pick = Returns m' \<or>
           handlePong m = m' \<or> m = m'"
    using assms(2) unfolding dispatch_def
    by (cases "Type f = FrameOpenStream"; cases "Type f = FrameData";
        cases "Type f = FrameCloseStream"; cases "Type f = FramePing";
        cases "Type f = FramePong"; simp)
  show ?thesis
    using d handleOpenStream_nextID handleData_nextID handleCloseStream_nextID
      handlePing_nextID [OF assms(1)] handlePong_nextID
    by metis
qed

lemma shutdown_nextID: "shutdown m = Returns m' \<Longrightarrow> nextID m' = nextID m"
  by (auto simp: shutdown_def shutdown_fn_def shutdown_begin_def Let_def split: if_splits)

lemma readLoop_step_nextID:
  assumes "wf m" "readLoop_step m rd pick = Returns (l, m')"
  shows "nextID m' = nextID m"
proof (cases rd)
  case ReadError
  then show ?thesis using assms
    by (auto simp: readLoop_step_def shutdown_nextID split: outcome.splits)
next
  case (Msg data)
  then have "m' = m \<or> (\<exists>f. dispatch m f pick = Returns m')"
    using assms(2) by (auto simp: readLoop_step_def split: if_splits sum.splits outcome.splits)
  then show ?thesis using dispatch_nextID [OF assms(1)] by auto
qed

lemma exec_nextID:
  assumes "wf m" "exec m c = Returns (ev, m')"
  shows "opened_ids [ev] = [nextID m] \<and> nextID m' = nextID m + 2 \<or>
         opened_ids [ev] = [] \<and> nextID m' = nextID m"
proof (cases c)
  case (CallOpenStream pick)
  then show ?thesis using assms
    by (auto simp: OpenStream_wf newStream_def split: if_splits)
next
  case (CallAcceptStream ctx_done pick)
  then obtain r where "AcceptStream m ctx_done pick = Returns (r, m')" "ev = RetAccept r"
    using assms(2) by (auto simp: ret_def split: outcome.splits)
  then show ?thesis using AcceptStream_state by fastforce
next
  case (CallSendPing pick)
  then show ?thesis using assms
    by (auto simp: ret_def SendPing_def writeWS_wf split: if_splits)
next
  case (CallSetMaxStreams n)
  then show ?thesis using assms by (auto simp: SetMaxStreams_def)
next
  case (CallOnPong fn)
  then show ?thesis using assms by (auto simp: OnPong_def)
next
  case CallMuxClose
  then show ?thesis using assms
    by (auto simp: ret_def Mux_Close_def shutdown_nextID split: outcome.splits)
next
  case (CallWrite a p pick)
  then show ?thesis using assms
    by (auto simp: ret_def Write_wf split: if_splits)
next
  case (CallRead a n)
  then show ?thesis using assms
    by (auto split: if_splits outcome.splits)
next
  case (CallClose a pick)
  then show ?thesis using assms
    by (auto simp: ret_def Close_wf removeStream_def split: if_splits)
next
  case (ReaderGets rd pick)
  then obtain l where "readLoop_step m rd pick = Returns (l, m')" "ev = RetLoop l"
    using assms(2) by (auto simp: ret_def split: outcome.splits)
  then show ?thesis using readLoop_step_nextID [OF assms(1)] by auto
next
  case (WriterRuns ok)
  then show ?thesis using assms
    by (auto simp: ret_def writeLoop_step_def shutdown_begin_def Let_def
          split: outcome.splits list.splits if_splits)
qed

lemma opened_ids_Cons: "opened_ids (ev # evs) = opened_ids [ev] @ opened_ids evs"
proof (cases ev)
  case (RetOpen r)
  show ?thesis
  proof (cases r)
    case (Inl e)
    then show ?thesis using RetOpen by simp
  next
    case (Inr p)
    then show ?thesis using RetOpen by (cases p) simp
  qed
qed simp_all

lemma map_upt_shift:
  "map f [0..<Suc n] = f 0 # map (\<lambda>k. f (Suc k)) [0..<n]"
  by (simp add: upt_conv_Cons map_Suc_upt [symmetric] del: upt_Suc)

lemma run_opened_ids:
  assumes "wf m" "run m cs = Returns (evs, m')"
  shows "opened_ids evs = map (\<lambda>k. nextID m + 2 * of_nat k) [0..<length (opened_ids evs)] \<and>
         nextID m' = nextID m + 2 * of_nat (length (opened_ids evs))"
  using assms
proof (induction cs arbitrary: m evs)
  case Nil
  then show ?case by simp
next
  case (Cons c cs)
  from Cons.prems(2) obtain ev m1 evs1 where
    e: "exec m c = Returns (ev, m1)" and r: "run m1 cs = Returns (evs1, m')" and
    evs: "evs = ev # evs1"
    by (auto split: outcome.splits)
  have w1: "wf m1" using exec_wf_evolves [OF Cons.prems(1) e] by simp
  note ih = Cons.IH [OF w1 r]
  let ?n = "length (opened_ids evs1)"
  from exec_nextID [OF Cons.prems(1) e] show ?case
  proof
    assume a: "opened_ids [ev] = [nextID m] \<and> nextID m1 = nextID m + 2"
    then have ids: "opened_ids evs = nextID m # opened_ids evs1"
      unfolding evs by (subst opened_ids_Cons) simp
    have "map (\<lambda>k. nextID m1 + 2 * of_nat k) [0..<?n] =
          map (\<lambda>k. nextID m + 2 * of_nat (Suc k)) [0..<?n]"
      using a by (simp add: algebra_simps)
    then have "opened_ids evs = map (\<lambda>k. nextID m + 2 * of_nat k) [0..<Suc ?n]"
      unfolding ids map_upt_shift [of "\<lambda>k. nextID m + 2 * of_nat k"] using ih by simp
    moreover have "nextID m' = nextID m + 2 * of_nat (Suc ?n)"
      using ih a by (simp add: algebra_simps)
    ultimately show ?thesis unfolding ids by simp
  next
    assume a: "opened_ids [ev] = [] \<and> nextID m1 = nextID m"
    then have ids: "opened_ids evs = opened_ids evs1"
      unfolding evs by (subst opened_ids_Cons) simp
    show ?thesis unfolding ids using ih a by simp
  qed
qed

lemma word_parity_step: "(x + 2 * y) AND 1 = x AND (1 :: uint32)"
  by (simp add: and_one_eq mod_2_eq_odd)

text \<open>
  Claim C5. Take any sequence of calls on a mux made by \<^verbatim>\<open>NewMux\<close> (calls of
  \<^verbatim>\<open>OpenStream\<close> that succeed or fail, mixed with any other calls). The IDs of the
  streams that the successful \<^verbatim>\<open>OpenStream\<close> calls returned are, in order, the starting
  value (1 for the client role, 2 for the server role) plus 2 per earlier allocation, in
  32-bit arithmetic; so every ID of the client role has \<open>id & 1 = 1\<close> and every ID of the
  server role has \<open>id & 1 = 0\<close>.
\<close>

theorem OpenStream_id_parity:
  assumes "run (NewMux server) calls = Returns (evs, m')"
  shows "opened_ids evs =
           map (\<lambda>k. (if server then 2 else 1) + 2 * of_nat k) [0..<length (opened_ids evs)] \<and>
         (\<forall>sid \<in> set (opened_ids evs). sid AND 1 = (if server then 0 else 1))"
proof -
  have n: "nextID (NewMux server) = (if server then 2 else 1)"
    by (simp add: NewMux_def)
  have ids: "opened_ids evs =
           map (\<lambda>k. (if server then 2 else 1) + 2 * of_nat k) [0..<length (opened_ids evs)]"
    using run_opened_ids [OF wf_NewMux assms] unfolding n by simp
  have "sid AND 1 = (if server then 0 else 1)" if "sid \<in> set (opened_ids evs)" for sid
  proof -
    from that obtain k where "sid = (if server then 2 else 1) + 2 * of_nat k"
      by (subst (asm) ids) auto
    then show ?thesis by (simp add: word_parity_step)
  qed
  then show ?thesis using ids by blast
qed

theorem OpenStream_id_parity_witness:
  "run (NewMux False) [CallOpenStream 0, CallOpenStream 0, CallOpenStream 0] =
     Returns ([RetOpen (Inr (0, 1)), RetOpen (Inr (1, 3)), RetOpen (Inr (2, 5))],
              state_after False [CallOpenStream 0, CallOpenStream 0, CallOpenStream 0]) \<and>
   opened_ids [RetOpen (Inr (0, 1)), RetOpen (Inr (1, 3)), RetOpen (Inr (2, 5))] = [1, 3, 5] \<and>
   (1 :: uint32) AND 1 = 1 \<and> (3 :: uint32) AND 1 = 1 \<and> (5 :: uint32) AND 1 = 1"
proof -
  have r: "run (NewMux False) [CallOpenStream 0, CallOpenStream 0, CallOpenStream 0] =
     Returns ([RetOpen (Inr (0, 1)), RetOpen (Inr (1, 3)), RetOpen (Inr (2, 5))],
              state_after False [CallOpenStream 0, CallOpenStream 0, CallOpenStream 0])"
    by (simp add: state_after_def NewMux_def OpenStream_def len_streams_def Let_def writeWS_def
          select_def writeCh_cap_def newStream_def)
  show ?thesis using r OpenStream_id_parity [OF r] by simp
qed

section \<open>A second OPEN_STREAM for a registered ID\<close>




subsection \<open>The errors that calls return\<close>








section \<open>Write, Close and the calls after shutdown\<close>

lemma open2_frame:
  "readLoop_step m (Msg (EncodeFrame \<lparr>Type = FrameOpenStream, StreamID = sid, Payload = []\<rparr>)) pick =
     (if mux_closed m then Returns (Exit, m)
      else (case handleOpenStream m sid pick of
              Returns m' \<Rightarrow> Returns (Continue, m')
            | Blocks \<Rightarrow> Blocks
            | Panics \<Rightarrow> Panics))"
  using readLoop_step_frame [of "\<lparr>Type = FrameOpenStream, StreamID = sid, Payload = []\<rparr>" m pick]
    frame_types(1)
  by (simp add: MaxPayloadSize_def dispatch_simps)

lemma orphan_state:
  "run (NewMux False) orphan_calls =
     Returns ([RetLoop Continue, RetLoop Continue, RetErr None],
       (NewMux False)\<lparr>objs := [newStream 2 2 (Some 2),
                                 (newStream 2 2 (Some 2))\<lparr>closeOnce := True, closed := True\<rparr>],
                        acceptCh := [0, 1], acceptCh_closed := True, mux_closed := True,
                        once := True, writeCh_closed := True, conn_closed := True\<rparr>)"
  by (simp add: orphan_calls_def open2_frame ret_def handleOpenStream_live acceptCh_cap_def
        NewMux_def Mux_Close_def shutdown_def shutdown_fn_def shutdown_begin_def
        closeRead_all_def closeRead_def newStream_def)

lemma close_state:
  "run (NewMux False) close_calls =
     Returns ([RetLoop Continue, RetOpen (Inr (1, 1)), RetErr None],
       (NewMux False)\<lparr>objs := [(newStream 2 2 (Some 2))\<lparr>closeOnce := True, closed := True\<rparr>,
                                 (newStream 1 1 (Some 1))\<lparr>closeOnce := True, closed := True\<rparr>],
                        nextID := 3,
                        acceptCh := [0], acceptCh_closed := True, mux_closed := True,
                        once := True, writeCh_closed := True,
                        wire := [EncodeFrame \<lparr>Type = FrameOpenStream, StreamID = 1, Payload = []\<rparr>],
                        conn_closed := True\<rparr>)"
  by (simp add: close_calls_def open2_frame ret_def handleOpenStream_live acceptCh_cap_def
        NewMux_def Mux_Close_def shutdown_def shutdown_fn_def shutdown_begin_def
        closeRead_all_def closeRead_def newStream_def
        OpenStream_def len_streams_def Let_def writeWS_def select_def writeCh_cap_def)

lemma one_open_state:
  "run (NewMux False) [CallOpenStream 0] =
     Returns ([RetOpen (Inr (0, 1))],
       (NewMux False)\<lparr>objs := [newStream 1 1 (Some 1)], streams := [(1, 0)], nextID := 3,
          writeCh := [EncodeFrame \<lparr>Type = FrameOpenStream, StreamID = 1, Payload = []\<rparr>]\<rparr>)"
  by (simp add: NewMux_def OpenStream_def len_streams_def Let_def writeWS_def select_def
        writeCh_cap_def newStream_def)

text \<open>
  Claim C4 as stated fails. After a second \<^verbatim>\<open>OPEN_STREAM\<close> for ID 2 and \<^verbatim>\<open>Mux.Close\<close>,
  the first stream object is not closed, and \<^verbatim>\<open>Write\<close> of three bytes on it returns 0 and
  \<^verbatim>\<open>ErrMuxClosed\<close> and leaves the mux as it was: no frame is submitted, and the result is
  not \<open>(len(p), nil)\<close>.
\<close>

theorem Write_on_open_stream_of_closed_mux:
  "completes False orphan_calls \<and>
   \<not> closed (objs (state_after False orphan_calls) ! 0) \<and>
   Write (state_after False orphan_calls) 0 [1, 2, 3] 0 =
     Returns ((0, Some ErrMuxClosed), state_after False orphan_calls)"
  unfolding completes_def state_after_def orphan_state
  by (simp add: newStream_def Write_def makeWriteFn_def NewMux_def)

text \<open>
  Claim C4, amended. For every stream of a mux and every buffer \<open>p\<close>: if the stream has been
  closed, \<^verbatim>\<open>Write\<close> returns 0 and \<^verbatim>\<open>ErrStreamClosed\<close> and submits no frame; if the
  stream is not closed but the mux has been shut down, it returns 0 and \<^verbatim>\<open>ErrMuxClosed\<close>
  and submits no frame; if neither is closed, it appends exactly one \<^verbatim>\<open>DATA\<close> frame to the
  outbound queue, carrying the stream's ID and a payload equal to \<open>p\<close> (nothing is split),
  and returns \<open>(len(p), nil)\<close>, waiting while the queue is full. The frame is a value of
  its own, so what the caller does with its buffer afterwards cannot change it.
\<close>

theorem Write_outcomes:
  assumes "wf m" and "a < length (objs m)"
  shows "(closed (objs m ! a) \<longrightarrow>
            Write m a p pick = Returns ((0, Some ErrStreamClosed), m)) \<and>
         (\<not> closed (objs m ! a) \<and> mux_closed m \<longrightarrow>
            Write m a p pick = Returns ((0, Some ErrMuxClosed), m)) \<and>
         (\<not> closed (objs m ! a) \<and> \<not> mux_closed m \<and> length (writeCh m) < writeCh_cap \<longrightarrow>
            Write m a p pick =
              Returns ((length p, None),
                m\<lparr>writeCh := writeCh m @
                   [EncodeFrame \<lparr>Type = FrameData, StreamID = ID (objs m ! a), Payload = p\<rparr>]\<rparr>)) \<and>
         (\<not> closed (objs m ! a) \<and> \<not> mux_closed m \<and> \<not> length (writeCh m) < writeCh_cap \<longrightarrow>
            Write m a p pick = Blocks)"
  by (simp add: Write_wf [OF assms])

theorem Write_outcomes_witness:
  "wf (state_after False [CallOpenStream 0]) \<and>
   0 < length (objs (state_after False [CallOpenStream 0])) \<and>
   Write (state_after False [CallOpenStream 0]) 0 [1, 2, 3] 0 =
     Returns ((3, None),
       (state_after False [CallOpenStream 0])
         \<lparr>writeCh := [EncodeFrame \<lparr>Type = FrameOpenStream, StreamID = 1, Payload = []\<rparr>,
                       EncodeFrame \<lparr>Type = FrameData, StreamID = 1, Payload = [1, 2, 3]\<rparr>]\<rparr>)"
proof -
  let ?M = "state_after False [CallOpenStream 0]"
  have M: "?M = (NewMux False)\<lparr>objs := [newStream 1 1 (Some 1)], streams := [(1, 0)], nextID := 3,
          writeCh := [EncodeFrame \<lparr>Type = FrameOpenStream, StreamID = 1, Payload = []\<rparr>]\<rparr>"
    unfolding state_after_def one_open_state by simp
  have h: "wf ?M" "0 < length (objs ?M)"
    unfolding M by (simp_all add: wf_def wf_stream_def newStream_def NewMux_def)
  show ?thesis
    using h Write_outcomes [OF h, of "[1, 2, 3]" 0] unfolding M
    by (simp add: newStream_def NewMux_def writeCh_cap_def)
qed

text \<open>
  Claim C6 as stated fails. In the same state (second \<^verbatim>\<open>OPEN_STREAM\<close> for ID 2, then
  \<^verbatim>\<open>Mux.Close\<close>) the first stream object has never been closed; the first local
  \<^verbatim>\<open>Close\<close> on it returns nil and fires the one-shot guard, yet the outbound queue and
  the connection have seen no frame at all: not one \<^verbatim>\<open>CLOSE_STREAM\<close> frame was enqueued.
\<close>

theorem Close_on_open_stream_of_closed_mux:
  "completes False orphan_calls \<and>
   \<not> closeOnce (objs (state_after False orphan_calls) ! 0) \<and>
   completes False (orphan_calls @ [CallClose 0 0]) \<and>
   events_of False (orphan_calls @ [CallClose 0 0]) =
     [RetLoop Continue, RetLoop Continue, RetErr None, RetErr None] \<and>
   closeOnce (objs (state_after False (orphan_calls @ [CallClose 0 0])) ! 0) \<and>
   writeCh (state_after False (orphan_calls @ [CallClose 0 0])) = [] \<and>
   wire (state_after False (orphan_calls @ [CallClose 0 0])) = []"
proof -
  have r: "run (NewMux False) (orphan_calls @ [CallClose 0 0]) =
     Returns ([RetLoop Continue, RetLoop Continue, RetErr None, RetErr None],
       (NewMux False)\<lparr>objs := [(newStream 2 2 (Some 2))\<lparr>closeOnce := True, closed := True\<rparr>,
                                 (newStream 2 2 (Some 2))\<lparr>closeOnce := True, closed := True\<rparr>],
                        acceptCh := [0, 1], acceptCh_closed := True, mux_closed := True,
                        once := True, writeCh_closed := True, conn_closed := True\<rparr>)"
    by (simp add: orphan_calls_def open2_frame ret_def handleOpenStream_live acceptCh_cap_def
        NewMux_def Mux_Close_def shutdown_def shutdown_fn_def shutdown_begin_def
        closeRead_all_def closeRead_def newStream_def
        Close_def Let_def makeCloseFn_def writeWS_def select_def removeStream_def)
  show ?thesis
    unfolding completes_def state_after_def events_of_def orphan_state r
    by (simp add: newStream_def NewMux_def)
qed

lemma Close_again:
  assumes "wf m" "a < length (objs m)" "closeOnce (objs m ! a)"
  shows "run m (map (CallClose a) picks) = Returns (replicate (length picks) (RetErr None), m)"
proof (induction picks)
  case Nil
  then show ?case by simp
next
  case (Cons k ks)
  have "exec m (CallClose a k) = Returns (RetErr None, m)"
    using assms by (simp add: Close_wf ret_def)
  then show ?case using Cons.IH by simp
qed

lemma closeOnce_shutdown:
  assumes "wf m" "map_of (streams m) sid = Some a"
  shows "closeOnce (objs (shutdown_fn m) ! a)"
proof -
  have "(sid, a) \<in> set (streams m)" using assms(2) by (rule map_of_SomeD)
  from shutdown_fn_closes_registered [OF assms(1) this]
  have "a < length (objs (shutdown_fn m))" "closed (objs (shutdown_fn m) ! a)" by simp_all
  then show ?thesis
    using wf_nth [OF wf_shutdown_fn [OF assms(1)]] by (simp add: wf_stream_def)
qed

lemma closeOnce_handleCloseStream:
  assumes "wf m" "map_of (streams m) sid = Some a"
  shows "closeOnce (objs (handleCloseStream m sid) ! a)"
proof -
  have "a < length (objs m)"
    using assms by (auto simp: wf_def dest!: map_of_SomeD)
  then show ?thesis
    using assms(2) by (simp add: handleCloseStream_def removeStream_def closeRead_def)
qed

text \<open>
  Claim C6, amended. Calling \<^verbatim>\<open>Close\<close> any number of times on a stream returns nil every
  time. At most one \<^verbatim>\<open>CLOSE_STREAM\<close> frame is enqueued: exactly one, carrying the stream's
  ID, by the first local \<^verbatim>\<open>Close\<close> when at that moment the one-shot guard has not fired
  and the mux has not been shut down (the call waits while the outbound queue is full);
  none when the mux has been shut down; and none by any later call. If the guard has
  already fired, which is what \<^verbatim>\<open>closeRead\<close> does on a remote \<^verbatim>\<open>CLOSE_STREAM\<close> and on
  \<^verbatim>\<open>shutdown\<close> for every registered stream, \<^verbatim>\<open>Close\<close> enqueues no frame.
\<close>

theorem Close_idempotent_one_shot:
  assumes "wf m" and "a < length (objs m)" and "picks \<noteq> []"
    and "closeOnce (objs m ! a) \<or> mux_closed m \<or> length (writeCh m) < writeCh_cap"
  shows "(\<exists>m'. run m (map (CallClose a) picks) =
                  Returns (replicate (length picks) (RetErr None), m') \<and>
               writeCh m' = writeCh m @
                 (if closeOnce (objs m ! a) \<or> mux_closed m then []
                  else [EncodeFrame \<lparr>Type = FrameCloseStream, StreamID = ID (objs m ! a),
                                     Payload = []\<rparr>]) \<and>
               wire m' = wire m \<and> closeOnce (objs m' ! a)) \<and>
         closeOnce (closeRead (objs m ! a)) \<and>
         (\<forall>sid. map_of (streams m) sid = Some a \<longrightarrow>
            closeOnce (objs (handleCloseStream m sid) ! a) \<and>
            closeOnce (objs (shutdown_fn m) ! a))"
proof -
  obtain k ks where picks: "picks = k # ks"
    using assms(3) by (cases picks) auto
  have "\<exists>r m1. Close m a k = Returns (r, m1)"
    using assms(4) unfolding Close_wf [OF assms(1,2)]
    by (cases "closeOnce (objs m ! a)"; cases "mux_closed m"; simp)
  then obtain r m1 where c: "Close m a k = Returns (r, m1)"
    by blast
  have r: "r = None" and
    w: "writeCh m1 = writeCh m @
                 (if closeOnce (objs m ! a) \<or> mux_closed m then []
                  else [EncodeFrame \<lparr>Type = FrameCloseStream, StreamID = ID (objs m ! a),
                                     Payload = []\<rparr>])" and
    wi: "wire m1 = wire m" and co: "closeOnce (objs m1 ! a)" and len: "a < length (objs m1)"
    using c assms(2,4) unfolding Close_wf [OF assms(1,2)]
    by (auto simp: removeStream_def split: if_splits)
  have w1: "wf m1" using Close_wf_evolves [OF assms(1,2) c] by simp
  have "run m (map (CallClose a) picks) =
          Returns (replicate (length picks) (RetErr None), m1)"
    using c r Close_again [OF w1 len co, of ks] assms(2) by (simp add: picks ret_def)
  then have 1: "\<exists>m'. run m (map (CallClose a) picks) =
                  Returns (replicate (length picks) (RetErr None), m') \<and>
               writeCh m' = writeCh m @
                 (if closeOnce (objs m ! a) \<or> mux_closed m then []
                  else [EncodeFrame \<lparr>Type = FrameCloseStream, StreamID = ID (objs m ! a),
                                     Payload = []\<rparr>]) \<and>
               wire m' = wire m \<and> closeOnce (objs m' ! a)"
    using w wi co by blast
  have 2: "closeOnce (closeRead (objs m ! a))" by (simp add: closeRead_def)
  show ?thesis
    using 1 2 closeOnce_handleCloseStream [OF assms(1)] closeOnce_shutdown [OF assms(1)]
    by blast
qed

theorem Close_idempotent_one_shot_witness:
  "wf (state_after False [CallOpenStream 0]) \<and>
   0 < length (objs (state_after False [CallOpenStream 0])) \<and>
   (\<exists>m'. run (state_after False [CallOpenStream 0]) [CallClose 0 0, CallClose 0 0, CallClose 0 0] =
            Returns ([RetErr None, RetErr None, RetErr None], m') \<and>
          writeCh m' = [EncodeFrame \<lparr>Type = FrameOpenStream, StreamID = 1, Payload = []\<rparr>,
                        EncodeFrame \<lparr>Type = FrameCloseStream, StreamID = 1, Payload = []\<rparr>])"
proof -
  let ?M = "state_after False [CallOpenStream 0]"
  have M: "?M = (NewMux False)\<lparr>objs := [newStream 1 1 (Some 1)], streams := [(1, 0)], nextID := 3,
          writeCh := [EncodeFrame \<lparr>Type = FrameOpenStream, StreamID = 1, Payload = []\<rparr>]\<rparr>"
    unfolding state_after_def one_open_state by simp
  have h: "wf ?M" "0 < length (objs ?M)" "[0, 0, 0 :: nat] \<noteq> []"
    "closeOnce (objs ?M ! 0) \<or> mux_closed ?M \<or> length (writeCh ?M) < writeCh_cap"
    unfolding M by (simp_all add: wf_def wf_stream_def newStream_def NewMux_def writeCh_cap_def)
  from Close_idempotent_one_shot [OF h]
  obtain m' where "run ?M (map (CallClose 0) [0, 0, 0]) =
                  Returns (replicate (length [0, 0, 0 :: nat]) (RetErr None), m')"
     "writeCh m' = writeCh ?M @
                 (if closeOnce (objs ?M ! 0) \<or> mux_closed ?M then []
                  else [EncodeFrame \<lparr>Type = FrameCloseStream, StreamID = ID (objs ?M ! 0),
                                     Payload = []\<rparr>])"
    by blast
  then show ?thesis using h(1,2) unfolding M
    by (intro conjI exI [of _ m']) (simp_all add: newStream_def NewMux_def numeral_3_eq_3)
qed

text \<open>
  Claim C9 as stated fails. A remote peer opens stream 2, the local side opens stream 1,
  and the mux is closed. \<^verbatim>\<open>Write\<close> on stream 1 then returns \<^verbatim>\<open>ErrStreamClosed\<close>, not
  \<^verbatim>\<open>ErrMuxClosed\<close>; and \<^verbatim>\<open>AcceptStream\<close>, when the runtime picks the receive on the
  accept queue, returns the stream still queued there with no error.
\<close>

theorem after_shutdown_other_results:
  "completes False close_calls \<and>
   events_of False close_calls = [RetLoop Continue, RetOpen (Inr (1, 1)), RetErr None] \<and>
   mux_closed (state_after False close_calls) \<and>
   Write (state_after False close_calls) 1 [1] 0 =
     Returns ((0, Some ErrStreamClosed), state_after False close_calls) \<and>
   AcceptStream (state_after False close_calls) False 0 =
     Returns (Inr 0, (state_after False close_calls)\<lparr>acceptCh := []\<rparr>)"
  unfolding completes_def state_after_def events_of_def close_state
  by (simp add: newStream_def Write_def NewMux_def AcceptStream_def select_def)

lemma AcceptStream_shut:
  assumes "mux_closed m"
  shows "AcceptStream m ctx_done pick \<noteq> Blocks" "AcceptStream m ctx_done pick \<noteq> Panics"
    "acceptCh m = [] \<Longrightarrow> \<not> ctx_done \<Longrightarrow>
       AcceptStream m ctx_done pick = Returns (Inl ErrMuxClosed, m)"
    "AcceptStream m ctx_done pick = Returns (r, m') \<Longrightarrow>
       r = Inl ErrMuxClosed \<and> m' = m \<or> ctx_done \<and> r = Inl CtxErr \<and> m' = m \<or>
       (\<exists>a. r = Inr a \<and> acceptCh m = a # acceptCh m')"
proof -
  let ?cs = "[(acceptCh m \<noteq> [] \<or> acceptCh_closed m,
              case acceptCh m of
                a # rest \<Rightarrow> Returns (Inr a, m\<lparr>acceptCh := rest\<rparr>)
              | [] \<Rightarrow> Returns (Inl ErrMuxClosed, m)),
             (ctx_done, Returns (Inl CtxErr, m)),
             (mux_closed m, Returns (Inl ErrMuxClosed, m))]"
  have sel: "AcceptStream m ctx_done pick = select ?cs pick"
    by (simp add: AcceptStream_def)
  have "(True, select ?cs pick) \<in> set ?cs"
    using select_result [of ?cs pick] assms by auto
  then have cases: "select ?cs pick =
                (case acceptCh m of
                   a # rest \<Rightarrow> Returns (Inr a, m\<lparr>acceptCh := rest\<rparr>)
                 | [] \<Rightarrow> Returns (Inl ErrMuxClosed, m)) \<or>
              ctx_done \<and> select ?cs pick = Returns (Inl CtxErr, m) \<or>
              select ?cs pick = Returns (Inl ErrMuxClosed, m)"
    by auto
  show "AcceptStream m ctx_done pick \<noteq> Blocks" "AcceptStream m ctx_done pick \<noteq> Panics"
    using cases unfolding sel by (auto split: list.splits)
  show "AcceptStream m ctx_done pick = Returns (Inl ErrMuxClosed, m)"
    if "acceptCh m = []" "\<not> ctx_done"
    using cases that unfolding sel by auto
  show "r = Inl ErrMuxClosed \<and> m' = m \<or> ctx_done \<and> r = Inl CtxErr \<and> m' = m \<or>
       (\<exists>a. r = Inr a \<and> acceptCh m = a # acceptCh m')"
    if "AcceptStream m ctx_done pick = Returns (r, m')"
    using cases that unfolding sel by (auto split: list.splits)
qed

lemma AcceptStream_Blocks:
  assumes "AcceptStream m ctx_done pick = Blocks"
  shows "acceptCh m = [] \<and> \<not> ctx_done \<and> \<not> mux_closed m"
proof -
  let ?cs = "[(acceptCh m \<noteq> [] \<or> acceptCh_closed m,
              case acceptCh m of
                a # rest \<Rightarrow> Returns (Inr a, m\<lparr>acceptCh := rest\<rparr>)
              | [] \<Rightarrow> Returns (Inl ErrMuxClosed, m)),
             (ctx_done, Returns (Inl CtxErr, m)),
             (mux_closed m, Returns (Inl ErrMuxClosed, m))]"
  have sel: "select ?cs pick = Blocks"
    using assms by (simp add: AcceptStream_def)
  have "(True, Blocks) \<notin> set ?cs"
    by (auto split: list.splits)
  then have "\<forall>c \<in> set ?cs. \<not> fst c"
    using select_result [of ?cs pick] unfolding sel by blast
  then show ?thesis by simp
qed

lemma shut_down_acceptCh:
  assumes "\<not> mux_closed m1" and "wf m1"
    and "shutdown m1 = Returns m0 \<or> writeLoop_step m1 False = Returns (Stuck, m0)"
  shows "acceptCh m0 = acceptCh m1"
  using assms(3)
proof
  assume "shutdown m1 = Returns m0"
  then have "m0 = shutdown_fn m1"
    using shutdown_live [OF assms(2,1)] by simp
  then show ?thesis by (simp add: shutdown_fn_def shutdown_begin_def Let_def)
next
  assume "writeLoop_step m1 False = Returns (Stuck, m0)"
  then show ?thesis
    by (cases "writeCh m1")
       (auto simp: writeLoop_step_def shutdown_begin_def Let_def split: if_splits)
qed

lemma shut_down_state:
  assumes "wf m1" and "\<not> mux_closed m1"
    and "shutdown m1 = Returns m0 \<or> writeLoop_step m1 False = Returns (Stuck, m0)"
  shows "wf m0 \<and> mux_closed m0 \<and>
         (\<forall>e \<in> set (streams m1). snd e < length (objs m0) \<and> closed (objs m0 ! snd e))"
  using assms(3)
proof
  assume "shutdown m1 = Returns m0"
  then have m0: "m0 = shutdown_fn m1"
    using shutdown_live [OF assms(1,2)] by simp
  have "snd e < length (objs m0) \<and> closed (objs m0 ! snd e)" if "e \<in> set (streams m1)" for e
    using shutdown_fn_closes_registered [OF assms(1), of "fst e" "snd e"] that m0 by simp
  then show ?thesis using wf_shutdown_fn [OF assms(1)] m0 by simp
next
  assume w: "writeLoop_step m1 False = Returns (Stuck, m0)"
  then obtain d rest where q: "writeCh m1 = d # rest"
    by (cases "writeCh m1") (auto simp: writeLoop_step_def split: if_splits)
  let ?m = "m1\<lparr>writeCh := rest\<rparr>"
  have m0: "m0 = (shutdown_begin ?m)\<lparr>once_stuck := True\<rparr>"
    using w q by (auto simp: writeLoop_step_def Let_def split: if_splits)
  have wm: "wf ?m" using assms(1) by simp
  have "snd e < length (objs m0) \<and> closed (objs m0 ! snd e)" if "e \<in> set (streams m1)" for e
    using shutdown_begin_closes_registered [OF wm, of "fst e" "snd e"] that m0 by simp
  moreover have "wf m0"
    unfolding m0 using wf_shutdown_begin [OF wm] by (intro wf_once_stuck) simp_all
  ultimately show ?thesis using m0 by simp
qed

lemma writer_stuck_blocks_Close:
  assumes "wf m1" and "\<not> mux_closed m1" and "writeLoop_step m1 False = Returns (Stuck, m0)"
  shows "Mux_Close m0 = Blocks" and "readLoop_step m0 ReadError pick = Blocks"
proof -
  obtain d rest where q: "writeCh m1 = d # rest"
    using assms(3) by (cases "writeCh m1") (auto simp: writeLoop_step_def split: if_splits)
  have "once_stuck m0"
    using assms(3) q by (auto simp: writeLoop_step_def Let_def split: if_splits)
  then show "Mux_Close m0 = Blocks" "readLoop_step m0 ReadError pick = Blocks"
    by (simp_all add: Mux_Close_def readLoop_step_def shutdown_def)
qed

text \<open>
  Claim C9, amended. Let the mux be shut down, by \<^verbatim>\<open>shutdown\<close> (which \<^verbatim>\<open>Mux.Close\<close> and a
  read error of the reader loop call) or by a failed write of the writer loop, and let
  any further calls follow. Then every \<^verbatim>\<open>OpenStream\<close> returns \<^verbatim>\<open>ErrMuxClosed\<close>; every
  \<^verbatim>\<open>AcceptStream\<close> returns without blocking or panicking, with \<^verbatim>\<open>ErrMuxClosed\<close> when the
  accept queue is empty and the caller's context is not cancelled, and otherwise with
  \<^verbatim>\<open>ErrMuxClosed\<close>, the context's error, or a stream that was still queued; an
  \<^verbatim>\<open>AcceptStream\<close> that was waiting when the mux was shut down returns \<^verbatim>\<open>ErrMuxClosed\<close>
  when it resumes; every
  \<^verbatim>\<open>Write\<close> on a stream of the mux returns 0 and an error and leaves the mux as it was:
  \<^verbatim>\<open>ErrStreamClosed\<close> when the stream is closed, as every stream that was registered at
  shutdown is, and \<^verbatim>\<open>ErrMuxClosed\<close> when it is not.
\<close>

theorem after_shutdown:
  assumes "wf m1" and "\<not> mux_closed m1"
    and "shutdown m1 = Returns m0 \<or> writeLoop_step m1 False = Returns (Stuck, m0)"
    and "run m0 calls = Returns (evs, m)"
  shows "mux_closed m \<and>
         OpenStream m pick = Returns (Inl ErrMuxClosed, m) \<and>
         AcceptStream m ctx_done pick \<noteq> Blocks \<and> AcceptStream m ctx_done pick \<noteq> Panics \<and>
         (acceptCh m = [] \<and> \<not> ctx_done \<longrightarrow>
            AcceptStream m ctx_done pick = Returns (Inl ErrMuxClosed, m)) \<and>
         (\<forall>r m'. AcceptStream m ctx_done pick = Returns (r, m') \<longrightarrow>
            r = Inl ErrMuxClosed \<and> m' = m \<or> ctx_done \<and> r = Inl CtxErr \<and> m' = m \<or>
            (\<exists>a. r = Inr a \<and> acceptCh m = a # acceptCh m')) \<and>
         (\<forall>a < length (objs m).
            Write m a p pick =
              Returns ((0, Some (if closed (objs m ! a) then ErrStreamClosed else ErrMuxClosed)), m)) \<and>
         (\<forall>e \<in> set (streams m1). snd e < length (objs m) \<and> closed (objs m ! snd e)) \<and>
         (AcceptStream m1 ctx_done pick = Blocks \<longrightarrow>
            (\<forall>k. AcceptStream m0 ctx_done k = Returns (Inl ErrMuxClosed, m0)))"
proof -
  have w0: "wf m0" and c0: "mux_closed m0" and
    r0: "\<forall>e \<in> set (streams m1). snd e < length (objs m0) \<and> closed (objs m0 ! snd e)"
    using shut_down_state [OF assms(1,2,3)] by simp_all
  have w: "wf m" and e: "evolves m0 m"
    using run_wf_evolves [OF w0 assms(4)] by simp_all
  have c: "mux_closed m" using e c0 by (simp add: evolves_def)
  have op: "OpenStream m pick = Returns (Inl ErrMuxClosed, m)"
    using c by (simp add: OpenStream_def)
  have wr: "\<forall>a < length (objs m).
            Write m a p pick =
              Returns ((0, Some (if closed (objs m ! a) then ErrStreamClosed else ErrMuxClosed)), m)"
    using c by (simp add: Write_wf [OF w])
  have reg: "snd e' < length (objs m) \<and> closed (objs m ! snd e')"
    if "e' \<in> set (streams m1)" for e'
    using r0 that e unfolding evolves_def by (metis less_le_trans)
  have pend: "AcceptStream m0 ctx_done k = Returns (Inl ErrMuxClosed, m0)"
    if "AcceptStream m1 ctx_done pick = Blocks" for k
  proof -
    have "acceptCh m0 = []" "\<not> ctx_done"
      using AcceptStream_Blocks [OF that] shut_down_acceptCh [OF assms(2,1,3)] by simp_all
    then show ?thesis by (rule AcceptStream_shut(3) [OF c0])
  qed
  have main: "mux_closed m \<and>
         OpenStream m pick = Returns (Inl ErrMuxClosed, m) \<and>
         AcceptStream m ctx_done pick \<noteq> Blocks \<and> AcceptStream m ctx_done pick \<noteq> Panics \<and>
         (acceptCh m = [] \<and> \<not> ctx_done \<longrightarrow>
            AcceptStream m ctx_done pick = Returns (Inl ErrMuxClosed, m)) \<and>
         (\<forall>r m'. AcceptStream m ctx_done pick = Returns (r, m') \<longrightarrow>
            r = Inl ErrMuxClosed \<and> m' = m \<or> ctx_done \<and> r = Inl CtxErr \<and> m' = m \<or>
            (\<exists>a. r = Inr a \<and> acceptCh m = a # acceptCh m'))"
    using c op AcceptStream_shut [OF c, of ctx_done pick] by blast
  show ?thesis
    using main wr reg pend by (intro conjI) blast+
qed

theorem after_shutdown_witness:
  "wf (state_after False [CallOpenStream 0]) \<and>
   \<not> mux_closed (state_after False [CallOpenStream 0]) \<and>
   shutdown (state_after False [CallOpenStream 0]) =
     Returns (shutdown_fn (state_after False [CallOpenStream 0])) \<and>
   run (shutdown_fn (state_after False [CallOpenStream 0])) [] =
     Returns ([], shutdown_fn (state_after False [CallOpenStream 0])) \<and>
   OpenStream (shutdown_fn (state_after False [CallOpenStream 0])) 0 =
     Returns (Inl ErrMuxClosed, shutdown_fn (state_after False [CallOpenStream 0])) \<and>
   AcceptStream (shutdown_fn (state_after False [CallOpenStream 0])) False 0 =
     Returns (Inl ErrMuxClosed, shutdown_fn (state_after False [CallOpenStream 0])) \<and>
   Write (shutdown_fn (state_after False [CallOpenStream 0])) 0 [1] 0 =
     Returns ((0, Some ErrStreamClosed), shutdown_fn (state_after False [CallOpenStream 0]))"
proof -
  let ?M = "state_after False [CallOpenStream 0]"
  let ?S = "shutdown_fn ?M"
  have M: "?M = (NewMux False)\<lparr>objs := [newStream 1 1 (Some 1)], streams := [(1, 0)], nextID := 3,
          writeCh := [EncodeFrame \<lparr>Type = FrameOpenStream, StreamID = 1, Payload = []\<rparr>]\<rparr>"
    unfolding state_after_def one_open_state by simp
  have h: "wf ?M" "\<not> mux_closed ?M"
    unfolding M by (simp_all add: wf_def wf_stream_def newStream_def NewMux_def)
  have s: "shutdown ?M = Returns ?S"
    using h by (rule shutdown_live)
  then have d: "shutdown ?M = Returns ?S \<or> writeLoop_step ?M False = Returns (Stuck, ?S)"
    by simp
  have r: "run ?S [] = Returns ([], ?S)" by simp
  have f: "acceptCh ?S = []" "0 < length (objs ?S)" "closed (objs ?S ! 0)"
    unfolding M
    by (simp_all add: shutdown_fn_def shutdown_begin_def NewMux_def closeRead_all_def
          closeRead_def newStream_def)
  note t = after_shutdown [OF h d r, where pick = 0 and ctx_done = False and p = "[1]"]
  have 1: "OpenStream ?S 0 = Returns (Inl ErrMuxClosed, ?S)"
    using t by (elim conjE)
  have 2: "AcceptStream ?S False 0 = Returns (Inl ErrMuxClosed, ?S)"
    using t f(1) by (elim conjE) blast
  have "\<forall>a < length (objs ?S).
          Write ?S a [1] 0 =
            Returns ((0, Some (if closed (objs ?S ! a) then ErrStreamClosed else ErrMuxClosed)), ?S)"
    using t by (elim conjE)
  then have 3: "Write ?S 0 [1] 0 = Returns ((0, Some ErrStreamClosed), ?S)"
    using f(2,3) by simp
  show ?thesis
    using h s r 1 2 3 by (intro conjI)
qed

end
